theory Spec2Isabelle
  imports Main "HOL-Library.Word" "HOL-Library.Signed_Division" "HOL-Library.Multiset"
begin

unbundle bit_operations_syntax

section \<open>Memory, failures and locks\<close>

text \<open>
  The tracker of \<^verbatim>\<open>main.go\<close> keeps \<^verbatim>\<open>*KeyFreq\<close> pointers in several places at once: in
  the heap slice and the lookup table of a shard, and, during a read, in the heap and the
  table of the aggregate shard as well. The records are therefore kept in an explicit store;
  a pointer is the position of its record in the store, and a new record is allocated at the
  end of the store. Go's \<^verbatim>\<open>int\<close> is taken to be the 64-bit one of the benchmarks'
  platform and is modelled by \<open>int\<close>, with the wrap-around written out where the code counts:
  \<^verbatim>\<open>kf.Frequency++\<close> goes from the largest \<^verbatim>\<open>int\<close>, \<open>2^63 - 1\<close>, to the smallest,
  \<open>- 2^63\<close>. Lengths and positions of a slice stay far below that.
\<close>

record KeyFreq =
  Key :: string
  Frequency :: int
  Index :: int

type_synonym ref = nat
type_synonym store = "KeyFreq list"
type_synonym MinHeap = "ref list"

text \<open>The 64-bit two's complement value of an integer: what Go's \<^verbatim>\<open>int\<close> keeps of it.\<close>

definition wrap64 :: "int \<Rightarrow> int" where
  "wrap64 x = (x + 2 ^ 63) mod 2 ^ 64 - 2 ^ 63"

text \<open>
  A run-time panic of Go, or a call that never returns, is a value of the model.
\<close>

datatype failure =
    IndexOutOfRange
  | DivideByZero
  | MakesliceLenOutOfRange
  | NilDereference
  | NonPositiveTickerInterval
  | CloseOfNilChannel
  | CloseOfClosedChannel
  | UnlockOfUnlockedMutex
  | BlocksForever

definition and_then :: "failure + 'a \<Rightarrow> ('a \<Rightarrow> failure + 'b) \<Rightarrow> failure + 'b" where
  "and_then m f = (case m of Inl e \<Rightarrow> Inl e | Inr v \<Rightarrow> f v)"

text \<open>
  \<^verbatim>\<open>sync.RWMutex\<close>, as one goroutine sees it while no other goroutine runs: the number of
  read locks held and whether the write lock is held. \<^verbatim>\<open>Lock\<close> waits until no reader and no
  writer holds the mutex, \<^verbatim>\<open>RLock\<close> until no writer does; a lock that is held when it is
  requested is held by the requesting goroutine itself, so the request never returns.
\<close>

record RWMutex =
  readers :: nat
  writer :: bool

definition unlocked :: RWMutex where
  "unlocked = \<lparr>readers = 0, writer = False\<rparr>"

definition RLock :: "RWMutex \<Rightarrow> failure + RWMutex" where
  "RLock m = (if writer m then Inl BlocksForever else Inr (m\<lparr>readers := readers m + 1\<rparr>))"

definition RUnlock :: "RWMutex \<Rightarrow> failure + RWMutex" where
  "RUnlock m = (if readers m = 0 then Inl UnlockOfUnlockedMutex
                else Inr (m\<lparr>readers := readers m - 1\<rparr>))"

definition Lock :: "RWMutex \<Rightarrow> failure + RWMutex" where
  "Lock m = (if writer m \<or> 0 < readers m then Inl BlocksForever else Inr (m\<lparr>writer := True\<rparr>))"

definition Unlock :: "RWMutex \<Rightarrow> failure + RWMutex" where
  "Unlock m = (if writer m then Inr (m\<lparr>writer := False\<rparr>) else Inl UnlockOfUnlockedMutex)"

section \<open>MinHeap: the methods of \<^verbatim>\<open>heap.Interface\<close>\<close>

definition Len :: "MinHeap \<Rightarrow> int" where
  "Len h = int (length h)"

text \<open>
  \<^verbatim>\<open>Less\<close> and \<^verbatim>\<open>Swap\<close> guard against indices beyond the slice, not against negative
  ones: indexing with a negative index panics.
\<close>

definition Less :: "store \<Rightarrow> MinHeap \<Rightarrow> int \<Rightarrow> int \<Rightarrow> failure + bool" where
  "Less st h i j =
     (if i \<ge> Len h \<or> j \<ge> Len h then Inr False
      else if i < 0 \<or> j < 0 then Inl IndexOutOfRange
      else Inr (Frequency (st ! (h ! nat i)) < Frequency (st ! (h ! nat j))))"

definition setIndex :: "store \<Rightarrow> ref \<Rightarrow> int \<Rightarrow> store" where
  "setIndex st r i = st[r := (st ! r)\<lparr>Index := i\<rparr>]"

definition Swap :: "store \<Rightarrow> MinHeap \<Rightarrow> int \<Rightarrow> int \<Rightarrow> failure + (store \<times> MinHeap)" where
  "Swap st h i j =
     (if i \<ge> Len h \<or> j \<ge> Len h then Inr (st, h)
      else if i < 0 \<or> j < 0 then Inl IndexOutOfRange
      else let h' = h[nat i := h ! nat j, nat j := h ! nat i];
               st1 = setIndex st (h' ! nat i) i;
               st2 = setIndex st1 (h' ! nat j) j
           in Inr (st2, h'))"

definition Push :: "store \<Rightarrow> MinHeap \<Rightarrow> ref \<Rightarrow> store \<times> MinHeap" where
  "Push st h item = (let n = Len h in (setIndex st item n, h @ [item]))"

definition Pop :: "store \<Rightarrow> MinHeap \<Rightarrow> failure + (store \<times> MinHeap \<times> ref)" where
  "Pop st h =
     (if h = [] then Inl IndexOutOfRange
      else let item = last h in Inr (setIndex st item (- 1), butlast h, item))"

section \<open>The functions of \<^verbatim>\<open>container/heap\<close>\<close>

text \<open>
  The heap algorithms are those of Go's standard library, which the repository calls with
  \<^verbatim>\<open>MinHeap\<close> as the interface. \<^verbatim>\<open>(j - 1) / 2\<close> and \<^verbatim>\<open>n / 2\<close> truncate towards zero, which
  \<open>sdiv\<close> does.
\<close>

function up :: "store \<Rightarrow> MinHeap \<Rightarrow> int \<Rightarrow> failure + (store \<times> MinHeap)" where
  "up st h j =
     (let i = (j - 1) sdiv 2 in
      if i = j then Inr (st, h)
      else case Less st h j i of
             Inl e \<Rightarrow> Inl e
           | Inr b \<Rightarrow>
               if \<not> b then Inr (st, h)
               else (case Swap st h i j of
                       Inl e \<Rightarrow> Inl e
                     | Inr (st', h') \<Rightarrow> up st' h' i))"
  by pat_completeness auto
termination
  apply (relation "measure (\<lambda>(st, h, j). nat j)")
   apply simp
  apply (auto simp: Less_def signed_divide_int_def split: if_splits)
  apply (case_tac "j = 0")
   apply simp_all
  apply (simp add: sgn_if abs_if split: if_splits)
  done

text \<open>
  The loop of \<^verbatim>\<open>down\<close>; it returns the final position \<open>i\<close>, from which \<^verbatim>\<open>down\<close> answers
  whether the element has moved.
\<close>

function downLoop :: "store \<Rightarrow> MinHeap \<Rightarrow> int \<Rightarrow> int \<Rightarrow> failure + (store \<times> MinHeap \<times> int)" where
  "downLoop st h i n =
     (let j1 = 2 * i + 1 in
      if j1 \<ge> n \<or> j1 < 0 then Inr (st, h, i)
      else case (if j1 + 1 < n then Less st h (j1 + 1) j1 else Inr False) of
             Inl e \<Rightarrow> Inl e
           | Inr right \<Rightarrow>
               (let j = (if right then j1 + 1 else j1) in
                case Less st h j i of
                  Inl e \<Rightarrow> Inl e
                | Inr b \<Rightarrow>
                    if \<not> b then Inr (st, h, i)
                    else (case Swap st h i j of
                            Inl e \<Rightarrow> Inl e
                          | Inr (st', h') \<Rightarrow> downLoop st' h' j n)))"
  by pat_completeness auto
termination
  apply (relation "measure (\<lambda>(st, h, i, n). nat (n - i))")
   apply simp
  apply (auto split: if_splits)
  done

definition down :: "store \<Rightarrow> MinHeap \<Rightarrow> int \<Rightarrow> int \<Rightarrow> failure + (store \<times> MinHeap \<times> bool)" where
  "down st h i0 n =
     (case downLoop st h i0 n of
        Inl e \<Rightarrow> Inl e
      | Inr (st', h', i) \<Rightarrow> Inr (st', h', i > i0))"

function initLoop :: "store \<Rightarrow> MinHeap \<Rightarrow> int \<Rightarrow> int \<Rightarrow> failure + (store \<times> MinHeap)" where
  "initLoop st h i n =
     (if i \<ge> 0 then
        (case down st h i n of
           Inl e \<Rightarrow> Inl e
         | Inr (st', h', moved) \<Rightarrow> initLoop st' h' (i - 1) n)
      else Inr (st, h))"
  by pat_completeness auto
termination
  by (relation "measure (\<lambda>(st, h, i, n). nat (i + 1))") auto

definition heap_Init :: "store \<Rightarrow> MinHeap \<Rightarrow> failure + (store \<times> MinHeap)" where
  "heap_Init st h = (let n = Len h in initLoop st h (n sdiv 2 - 1) n)"

definition heap_Push :: "store \<Rightarrow> MinHeap \<Rightarrow> ref \<Rightarrow> failure + (store \<times> MinHeap)" where
  "heap_Push st h x = (case Push st h x of (st1, h1) \<Rightarrow> up st1 h1 (Len h1 - 1))"

definition heap_Pop :: "store \<Rightarrow> MinHeap \<Rightarrow> failure + (store \<times> MinHeap \<times> ref)" where
  "heap_Pop st h =
     (let n = Len h - 1 in
      and_then (Swap st h 0 n) (\<lambda>(st1, h1).
      and_then (down st1 h1 0 n) (\<lambda>(st2, h2, moved).
      Pop st2 h2)))"

definition heap_Fix :: "store \<Rightarrow> MinHeap \<Rightarrow> int \<Rightarrow> failure + (store \<times> MinHeap)" where
  "heap_Fix st h i =
     and_then (down st h i (Len h)) (\<lambda>(st1, h1, moved).
     if \<not> moved then up st1 h1 i else Inr (st1, h1))"

section \<open>Shards\<close>

record shard =
  topN :: int
  minHeap :: MinHeap
  keyFreqs :: "string \<rightharpoonup> ref"
  mu :: RWMutex

definition NewShard :: "int \<Rightarrow> shard" where
  "NewShard n = \<lparr>topN = n, minHeap = [], keyFreqs = Map.empty, mu = unlocked\<rparr>"

text \<open>
  \<^verbatim>\<open>processKeyFreq\<close> reads \<^verbatim>\<open>tShard.minHeap[0]\<close> when the heap is not shorter than
  \<^verbatim>\<open>topN\<close>; on an empty heap that read panics.
\<close>

definition processKeyFreq :: "store \<Rightarrow> shard \<Rightarrow> ref \<Rightarrow> failure + (store \<times> shard)" where
  "processKeyFreq st tShard kf =
     (if Len (minHeap tShard) < shard.topN tShard then
        and_then (heap_Push st (minHeap tShard) kf) (\<lambda>(st1, h1).
        Inr (st1, tShard\<lparr>minHeap := h1,
                          keyFreqs := (keyFreqs tShard)(Key (st1 ! kf) \<mapsto> kf)\<rparr>))
      else if minHeap tShard = [] then Inl IndexOutOfRange
      else if Frequency (st ! (minHeap tShard ! 0)) \<le> Frequency (st ! kf) then
        and_then (heap_Pop st (minHeap tShard)) (\<lambda>(st1, h1, minKey).
        let m1 = (keyFreqs tShard)(Key (st1 ! minKey) := None) in
        and_then (heap_Push st1 h1 kf) (\<lambda>(st2, h2).
        Inr (st2, tShard\<lparr>minHeap := h2, keyFreqs := m1(Key (st2 ! kf) \<mapsto> kf)\<rparr>)))
      else Inr (st, tShard))"

text \<open>
  \<^verbatim>\<open>shard.RecordRequest\<close> holds the shard's write lock for the whole call (the deferred
  \<^verbatim>\<open>Unlock\<close> runs on return). \<^verbatim>\<open>kf.Frequency++\<close> is the increment of a Go \<^verbatim>\<open>int\<close>. A
  new record is allocated at the end of the store with the zero value of \<^verbatim>\<open>Index\<close>.
\<close>

definition shard_RecordRequest :: "store \<Rightarrow> shard \<Rightarrow> string \<Rightarrow> failure + (store \<times> shard)" where
  "shard_RecordRequest st s key =
     and_then (Lock (shard.mu s)) (\<lambda>m.
     let s0 = s\<lparr>shard.mu := m\<rparr> in
     and_then
       (case keyFreqs s0 key of
          Some kf \<Rightarrow>
            (let st1 = st[kf := (st ! kf)\<lparr>Frequency := wrap64 (Frequency (st ! kf) + 1)\<rparr>] in
             and_then (heap_Fix st1 (minHeap s0) (Index (st1 ! kf))) (\<lambda>(st2, h2).
             Inr (st2, s0\<lparr>minHeap := h2\<rparr>)))
        | None \<Rightarrow>
            (let kf = length st;
                 st1 = st @ [\<lparr>Key = key, Frequency = 1, Index = 0\<rparr>]
             in processKeyFreq st1 s0 kf))
       (\<lambda>(st', s1).
     and_then (Unlock (shard.mu s1)) (\<lambda>m'.
     Inr (st', s1\<lparr>shard.mu := m'\<rparr>))))"

text \<open>
  The loop of \<^verbatim>\<open>shard.GetHotspots\<close> runs once for every element the copy had when the loop
  started, pops the copy each time and stores the popped record's key.
\<close>

fun popLoop :: "nat \<Rightarrow> store \<Rightarrow> MinHeap \<Rightarrow> failure + (store \<times> string list)" where
  "popLoop 0 st h = Inr (st, [])"
| "popLoop (Suc k) st h =
     (case heap_Pop st h of
        Inl e \<Rightarrow> Inl e
      | Inr (st1, h1, kf) \<Rightarrow>
          (case popLoop k st1 h1 of
             Inl e \<Rightarrow> Inl e
           | Inr (st2, hotspots) \<Rightarrow> Inr (st2, Key (st1 ! kf) # hotspots)))"

definition shard_GetHotspots :: "store \<Rightarrow> shard \<Rightarrow> failure + (store \<times> string list)" where
  "shard_GetHotspots st s =
     (let minHeapCopy = [] @ minHeap s in
      and_then (heap_Init st minHeapCopy) (\<lambda>(st1, h1).
      popLoop (length h1) st1 h1))"

definition shard_IsHotspot :: "shard \<Rightarrow> string \<Rightarrow> failure + (shard \<times> bool)" where
  "shard_IsHotspot s key =
     and_then (Lock (shard.mu s)) (\<lambda>m.
     let exists = (keyFreqs s key \<noteq> None) in
     and_then (Unlock m) (\<lambda>m'.
     Inr (s\<lparr>shard.mu := m'\<rparr>, exists)))"

section \<open>The tracker\<close>

datatype chan = ChanOpen | ChanClosed

record HotspotTracker =
  shards :: "shard list"
  numShards :: int
  topN :: int
  cache :: "shard option"
  mu :: RWMutex
  update :: bool
  stop :: "chan option"
  withCache :: bool

text \<open>
  \<^verbatim>\<open>make([]*shard, numShards)\<close> panics with \<^verbatim>\<open>makeslice: len out of range\<close> on a negative
  length and on a length whose \<open>8\<close>-byte pointers need more than \<^verbatim>\<open>maxAlloc\<close>, which is
  \<open>2^48\<close> bytes on the 64-bit platform; nothing else is checked. A slice that passes this
  check is taken to be allocated, and so are the shards: a machine that has not the memory
  ends the program with the runtime's fatal error, which is no panic and which no Go code sees.
\<close>

definition NewHotspotTracker :: "int \<Rightarrow> int \<Rightarrow> failure + HotspotTracker" where
  "NewHotspotTracker n k =
     (if k < 0 \<or> 2 ^ 48 < 8 * k then Inl MakesliceLenOutOfRange
      else Inr \<lparr>shards = replicate (nat k) (NewShard n), numShards = k, topN = n,
                cache = None, mu = unlocked, update = False, stop = None,
                withCache = False\<rparr>)"

text \<open>
  \<^verbatim>\<open>WithCache\<close> sets the fields and starts the ticker; \<^verbatim>\<open>time.NewTicker\<close> panics on an
  interval that is not positive. The ticker's goroutine appears in the model as the step
  \<open>tick\<close>, enabled while the \<^verbatim>\<open>stop\<close> channel is open.
\<close>

definition WithCache :: "HotspotTracker \<Rightarrow> int \<Rightarrow> failure + HotspotTracker" where
  "WithCache ht interval =
     (let ht1 = ht\<lparr>cache := Some (NewShard (HotspotTracker.topN ht)), update := True,
                    stop := Some ChanOpen, withCache := True\<rparr>
      in if interval \<le> 0 then Inl NonPositiveTickerInterval else Inr ht1)"

definition tick :: "HotspotTracker \<Rightarrow> HotspotTracker" where
  "tick ht = (if stop ht = Some ChanOpen then ht\<lparr>update := True\<rparr> else ht)"

definition Close :: "HotspotTracker \<Rightarrow> failure + HotspotTracker" where
  "Close ht =
     (if withCache ht then
        (case stop ht of
           None \<Rightarrow> Inl CloseOfNilChannel
         | Some ChanClosed \<Rightarrow> Inl CloseOfClosedChannel
         | Some ChanOpen \<Rightarrow> Inr (ht\<lparr>stop := Some ChanClosed\<rparr>))
      else Inr ht)"

text \<open>
  The 32-bit FNV-1a hash of \<^verbatim>\<open>hash/fnv\<close>: starting from the offset basis, every byte is
  xor-ed in and the sum multiplied by the prime, modulo \<open>2^32\<close>. The \<^verbatim>\<open>%\<close> of Go is the
  remainder of the truncating division and panics on a zero divisor.
\<close>

definition New32a :: "32 word" where
  "New32a = 2166136261"

definition Write :: "32 word \<Rightarrow> string \<Rightarrow> 32 word" where
  "Write hash key = fold (\<lambda>c h. (h XOR of_char c) * 16777619) key hash"

definition shardIndex :: "HotspotTracker \<Rightarrow> string \<Rightarrow> failure + int" where
  "shardIndex ht key =
     (let hashValue = Write New32a key in
      if numShards ht = 0 then Inl DivideByZero
      else Inr (uint hashValue smod numShards ht))"

definition RecordRequest :: "store \<Rightarrow> HotspotTracker \<Rightarrow> string \<Rightarrow> failure + (store \<times> HotspotTracker)" where
  "RecordRequest st ht key =
     and_then (shardIndex ht key) (\<lambda>i.
     if i < 0 \<or> i \<ge> int (length (shards ht)) then Inl IndexOutOfRange
     else and_then (shard_RecordRequest st (shards ht ! nat i) key) (\<lambda>(st', s').
          Inr (st', ht\<lparr>shards := (shards ht)[nat i := s']\<rparr>)))"

text \<open>
  \<^verbatim>\<open>aggregateShards\<close> feeds the records of every shard's heap, in heap order, to
  \<^verbatim>\<open>processKeyFreq\<close> on a new shard. It passes the shard's own pointers, so the aggregate
  shares its records with the shards.
\<close>

fun feed :: "store \<Rightarrow> shard \<Rightarrow> ref list \<Rightarrow> failure + (store \<times> shard)" where
  "feed st tShard [] = Inr (st, tShard)"
| "feed st tShard (kf # kfs) =
     (case processKeyFreq st tShard kf of
        Inl e \<Rightarrow> Inl e
      | Inr (st', tShard') \<Rightarrow> feed st' tShard' kfs)"

fun shardsLoop :: "store \<Rightarrow> shard \<Rightarrow> shard list \<Rightarrow> failure + (store \<times> shard \<times> shard list)" where
  "shardsLoop st tShard [] = Inr (st, tShard, [])"
| "shardsLoop st tShard (s # ss) =
     (case RLock (shard.mu s) of
        Inl e \<Rightarrow> Inl e
      | Inr m \<Rightarrow>
         (case feed st tShard (minHeap s) of
            Inl e \<Rightarrow> Inl e
          | Inr (st1, tShard1) \<Rightarrow>
             (case RUnlock m of
                Inl e \<Rightarrow> Inl e
              | Inr m' \<Rightarrow>
                 (case shardsLoop st1 tShard1 ss of
                    Inl e \<Rightarrow> Inl e
                  | Inr (st2, tShard2, ss') \<Rightarrow>
                      Inr (st2, tShard2, s\<lparr>shard.mu := m'\<rparr> # ss')))))"

definition aggregateShards :: "store \<Rightarrow> HotspotTracker \<Rightarrow> failure + (store \<times> HotspotTracker \<times> shard)" where
  "aggregateShards st ht =
     (let tShard = NewShard (HotspotTracker.topN ht) in
      and_then (shardsLoop st tShard (shards ht)) (\<lambda>(st', tShard', ss').
      Inr (st', ht\<lparr>shards := ss'\<rparr>, tShard')))"

text \<open>
  \<^verbatim>\<open>AggregateData\<close> takes the tracker's read lock and defers its release; with the cache
  enabled it then asks for the write lock of the same mutex, again with a deferred release.
  The deferred calls run in reverse order on return. The result is the pointer it returns:
  the new aggregate, or \<^verbatim>\<open>ht.cache\<close>, which may be nil.
\<close>

definition AggregateData :: "store \<Rightarrow> HotspotTracker \<Rightarrow> failure + (store \<times> HotspotTracker \<times> shard option)" where
  "AggregateData st ht =
     and_then (RLock (HotspotTracker.mu ht)) (\<lambda>m1.
     let ht1 = ht\<lparr>HotspotTracker.mu := m1\<rparr> in
     if withCache ht1 then
       and_then (Lock (HotspotTracker.mu ht1)) (\<lambda>m2.
       let ht2 = ht1\<lparr>HotspotTracker.mu := m2\<rparr> in
       and_then
         (if update ht2 then
            and_then (aggregateShards st ht2) (\<lambda>(st', ht3, tShard).
            Inr (st', ht3\<lparr>cache := Some tShard, update := False\<rparr>))
          else Inr (st, ht2))
         (\<lambda>(st', ht4).
       and_then (Unlock (HotspotTracker.mu ht4)) (\<lambda>m3.
       and_then (RUnlock m3) (\<lambda>m4.
       Inr (st', ht4\<lparr>HotspotTracker.mu := m4\<rparr>, cache ht4)))))
     else
       and_then (aggregateShards st ht1) (\<lambda>(st', ht2, tShard).
       and_then (RUnlock (HotspotTracker.mu ht2)) (\<lambda>m2.
       Inr (st', ht2\<lparr>HotspotTracker.mu := m2\<rparr>, Some tShard))))"

definition GetHotspots :: "store \<Rightarrow> HotspotTracker \<Rightarrow> failure + (store \<times> HotspotTracker \<times> string list)" where
  "GetHotspots st ht =
     and_then (AggregateData st ht) (\<lambda>(st1, ht1, p).
     case p of
       None \<Rightarrow> Inl NilDereference
     | Some aggregateShard \<Rightarrow>
         and_then (shard_GetHotspots st1 aggregateShard) (\<lambda>(st2, hotspots).
         Inr (st2, ht1, hotspots)))"

text \<open>
  \<^verbatim>\<open>shard.IsHotspot\<close> locks the shard it is called on; with the cache enabled that shard is
  the one \<^verbatim>\<open>ht.cache\<close> points to.
\<close>

definition IsHotspot :: "store \<Rightarrow> HotspotTracker \<Rightarrow> string \<Rightarrow> failure + (store \<times> HotspotTracker \<times> bool)" where
  "IsHotspot st ht key =
     and_then (AggregateData st ht) (\<lambda>(st1, ht1, p).
     case p of
       None \<Rightarrow> Inl NilDereference
     | Some aggregateShard \<Rightarrow>
         and_then (shard_IsHotspot aggregateShard key) (\<lambda>(s', b).
         Inr (st1, (if withCache ht1 then ht1\<lparr>cache := Some s'\<rparr> else ht1), b)))"

section \<open>Sequences of public operations\<close>

text \<open>
  The public operations, and the tick of the ticker's goroutine, as steps on the store and
  the tracker.
\<close>

datatype operation =
    OpRecordRequest string
  | OpGetHotspots
  | OpIsHotspot string
  | OpWithCache int
  | OpTick
  | OpClose

fun exec :: "operation \<Rightarrow> store \<times> HotspotTracker \<Rightarrow> failure + (store \<times> HotspotTracker)" where
  "exec (OpRecordRequest key) (st, ht) = RecordRequest st ht key"
| "exec OpGetHotspots (st, ht) =
     and_then (GetHotspots st ht) (\<lambda>(st', ht', hotspots). Inr (st', ht'))"
| "exec (OpIsHotspot key) (st, ht) =
     and_then (IsHotspot st ht key) (\<lambda>(st', ht', b). Inr (st', ht'))"
| "exec (OpWithCache interval) (st, ht) =
     and_then (WithCache ht interval) (\<lambda>ht'. Inr (st, ht'))"
| "exec OpTick (st, ht) = Inr (st, tick ht)"
| "exec OpClose (st, ht) = and_then (Close ht) (\<lambda>ht'. Inr (st, ht'))"

fun run :: "operation list \<Rightarrow> store \<times> HotspotTracker \<Rightarrow> failure + (store \<times> HotspotTracker)" where
  "run [] w = Inr w"
| "run (x # xs) w = (case exec x w of Inl e \<Rightarrow> Inl e | Inr w' \<Rightarrow> run xs w')"

text \<open>
  A tracker state is reachable when a sequence of public operations leads to it from a tracker
  that \<^verbatim>\<open>NewHotspotTracker\<close> has built, on an empty store, from a positive \<^verbatim>\<open>topN\<close> and a
  positive number of shards.
\<close>

definition reaches :: "int \<Rightarrow> int \<Rightarrow> operation list \<Rightarrow> store \<times> HotspotTracker \<Rightarrow> bool" where
  "reaches n k xs w =
     (0 < n \<and> 0 < k \<and>
      (case NewHotspotTracker n k of Inl e \<Rightarrow> False | Inr ht \<Rightarrow> run xs ([], ht) = Inr w))"

section \<open>Observations and scenarios\<close>

text \<open>
  A tracker built by \<^verbatim>\<open>NewHotspotTracker\<close> on an empty store, followed by a sequence of
  public operations.
\<close>

definition start :: "int \<Rightarrow> int \<Rightarrow> operation list \<Rightarrow> failure + (store \<times> HotspotTracker)" where
  "start n k xs = (case NewHotspotTracker n k of Inl e \<Rightarrow> Inl e | Inr ht \<Rightarrow> run xs ([], ht))"

definition scenario1 :: "operation list" where
  "scenario1 = map OpRecordRequest
     [''a'', ''b'', ''c'', ''a'', ''a'', ''b'', ''d'', ''d'', ''d'', ''d'', ''e'', ''f'', ''e'']"

definition keyOf :: "store \<Rightarrow> ref \<Rightarrow> string" where
  "keyOf st r = Key (st ! r)"

definition freqOf :: "store \<Rightarrow> ref \<Rightarrow> int" where
  "freqOf st r = Frequency (st ! r)"

definition same_data :: "store \<Rightarrow> store \<Rightarrow> bool" where
  "same_data st st' \<longleftrightarrow> length st' = length st \<and> keyOf st' = keyOf st \<and> freqOf st' = freqOf st"

definition idx_ok :: "store \<Rightarrow> bool" where
  "idx_ok st \<longleftrightarrow> (\<forall>kf\<in>set st. - 1 \<le> Index kf)"

text \<open>What one heap operation may do to the store and the slice.\<close>
definition permuted :: "store \<Rightarrow> MinHeap \<Rightarrow> store \<Rightarrow> MinHeap \<Rightarrow> bool" where
  "permuted st h st' h' \<longleftrightarrow> same_data st st' \<and> mset h' = mset h \<and> (idx_ok st \<longrightarrow> idx_ok st')"

definition swapped :: "MinHeap \<Rightarrow> nat \<Rightarrow> nat \<Rightarrow> MinHeap" where
  "swapped h a b = h[a := h ! b, b := h ! a]"

definition heap_from :: "(ref \<Rightarrow> int) \<Rightarrow> MinHeap \<Rightarrow> nat \<Rightarrow> nat \<Rightarrow> bool" where
  "heap_from f h l n \<longleftrightarrow>
     (\<forall>p c. l \<le> p \<and> c < n \<and> (c = 2 * p + 1 \<or> c = 2 * p + 2) \<longrightarrow> f (h ! p) \<le> f (h ! c))"

definition sift_inv :: "(ref \<Rightarrow> int) \<Rightarrow> MinHeap \<Rightarrow> nat \<Rightarrow> nat \<Rightarrow> nat \<Rightarrow> bool" where
  "sift_inv f h l i n \<longleftrightarrow>
     (\<forall>p c. l \<le> p \<and> p \<noteq> i \<and> c < n \<and> (c = 2 * p + 1 \<or> c = 2 * p + 2) \<longrightarrow> f (h ! p) \<le> f (h ! c)) \<and>
     (\<forall>p c. l \<le> p \<and> (i = 2 * p + 1 \<or> i = 2 * p + 2) \<and> c < n \<and> (c = 2 * i + 1 \<or> c = 2 * i + 2) \<longrightarrow>
        f (h ! p) \<le> f (h ! c))"

text \<open>
  The lookup table of a shard as the spec sees it: the tracked keys with their frequencies.
\<close>
definition tracked :: "store \<Rightarrow> shard \<Rightarrow> string \<rightharpoonup> int" where
  "tracked st s = (\<lambda>k. map_option (freqOf st) (keyFreqs s k))"

text \<open>
  The structural part of the shard invariant: the heap holds records of the store with
  pairwise different keys, the lookup table maps exactly these keys, each to its record, and
  the heap is not longer than \<^verbatim>\<open>topN\<close>.
\<close>
definition shard_wf :: "store \<Rightarrow> shard \<Rightarrow> bool" where
  "shard_wf st s \<longleftrightarrow>
     (\<forall>r\<in>set (minHeap s). r < length st) \<and>
     distinct (map (keyOf st) (minHeap s)) \<and>
     dom (keyFreqs s) = keyOf st ` set (minHeap s) \<and>
     (\<forall>r\<in>set (minHeap s). keyFreqs s (keyOf st r) = Some r) \<and>
     Len (minHeap s) \<le> shard.topN s"

text \<open>
  The invariant of the tracker states: positive parameters, as many shards as
  \<^verbatim>\<open>numShards\<close> says, no lock held, every \<^verbatim>\<open>Index\<close> at least \<open>-1\<close>, and every shard
  well-formed, with the tracker's \<^verbatim>\<open>topN\<close>, and tracking only keys that the router sends to
  it.
\<close>
definition tracker_ok :: "store \<Rightarrow> HotspotTracker \<Rightarrow> bool" where
  "tracker_ok st ht \<longleftrightarrow>
     0 < HotspotTracker.topN ht \<and> 0 < numShards ht \<and>
     int (length (shards ht)) = numShards ht \<and>
     HotspotTracker.mu ht = unlocked \<and> idx_ok st \<and>
     (\<forall>i<length (shards ht).
        shard_wf st (shards ht ! i) \<and> shard.mu (shards ht ! i) = unlocked \<and>
        shard.topN (shards ht ! i) = HotspotTracker.topN ht \<and>
        (\<forall>r\<in>set (minHeap (shards ht ! i)). shardIndex ht (keyOf st r) = Inr (int i)))"

text \<open>
  The store and the shard that Scenario 1 leaves behind (the records of the dropped keys
  included), for Scenario 2.
\<close>
definition scenario1_store :: store where
  "scenario1_store =
     [\<lparr>Key = ''a'', Frequency = 3, Index = 1\<rparr>, \<lparr>Key = ''b'', Frequency = 2, Index = 0\<rparr>,
      \<lparr>Key = ''c'', Frequency = 1, Index = - 1\<rparr>, \<lparr>Key = ''d'', Frequency = 4, Index = 2\<rparr>,
      \<lparr>Key = ''e'', Frequency = 1, Index = 0\<rparr>, \<lparr>Key = ''f'', Frequency = 1, Index = 0\<rparr>,
      \<lparr>Key = ''e'', Frequency = 1, Index = 0\<rparr>]"

definition scenario1_shard :: shard where
  "scenario1_shard =
     \<lparr>shard.topN = 3, minHeap = [1, 0, 3],
      keyFreqs = [''a'' \<mapsto> 0, ''b'' \<mapsto> 1, ''d'' \<mapsto> 3], shard.mu = unlocked\<rparr>"

definition scenario1_tracker :: HotspotTracker where
  "scenario1_tracker =
     \<lparr>shards = [scenario1_shard], numShards = 1, topN = 3, cache = None, mu = unlocked,
      update = False, stop = None, withCache = False\<rparr>"

text \<open>
  A tracker with one shard that tracks the key a with the largest frequency an \<^verbatim>\<open>int\<close> can
  hold, as \<open>2^63 - 1\<close> requests for a leave it.
\<close>
definition saturated_store :: store where
  "saturated_store = [\<lparr>Key = ''a'', Frequency = 2 ^ 63 - 1, Index = 0\<rparr>]"

definition saturated_tracker :: HotspotTracker where
  "saturated_tracker =
     \<lparr>shards = [\<lparr>shard.topN = 3, minHeap = [0], keyFreqs = [''a'' \<mapsto> 0], shard.mu = unlocked\<rparr>],
      numShards = 1, topN = 3, cache = None, mu = unlocked, update = False, stop = None,
      withCache = False\<rparr>"

text \<open>The records that the shards of a tracker hold in their heaps.\<close>
definition heldRecords :: "HotspotTracker \<Rightarrow> ref set" where
  "heldRecords ht = set (concat (map minHeap (shards ht)))"

text \<open>
  The frequency with which the tracker tracks a key: the one its lookup table gives in the
  shard the router sends the key to.
\<close>
definition trackedFrequency :: "store \<Rightarrow> HotspotTracker \<Rightarrow> string \<Rightarrow> int option" where
  "trackedFrequency st ht key =
     (case shardIndex ht key of
        Inl e \<Rightarrow> None
      | Inr i \<Rightarrow> if 0 \<le> i \<and> i < int (length (shards ht))
                 then tracked st (shards ht ! nat i) key else None)"

section \<open>Evaluation\<close>

declare up.simps [simp del] downLoop.simps [simp del] initLoop.simps [simp del]

lemma and_then_cong_weak [cong]: "m = m' \<Longrightarrow> and_then m f = and_then m' f"
  by simp

lemma and_then_simps [simp]:
  "and_then (Inl e) f = Inl e"
  "and_then (Inr v) f = f v"
  by (simp_all add: and_then_def)

lemma and_then_eq_Inr: "and_then m f = Inr y \<longleftrightarrow> (\<exists>v. m = Inr v \<and> f v = Inr y)"
  by (cases m) simp_all

lemmas eval_defs = NewHotspotTracker_def NewShard_def unlocked_def RecordRequest_def shardIndex_def
  shard_RecordRequest_def Lock_def Unlock_def RLock_def RUnlock_def processKeyFreq_def
  heap_Push_def heap_Pop_def heap_Fix_def heap_Init_def Push_def Pop_def Swap_def Less_def Len_def
  setIndex_def down_def signed_divide_int_def signed_modulo_int_def up.simps downLoop.simps
  initLoop.simps Let_def GetHotspots_def IsHotspot_def AggregateData_def aggregateShards_def
  shard_GetHotspots_def shard_IsHotspot_def WithCache_def Write_def New32a_def start_def
  wrap64_def

section \<open>Construction and shutdown\<close>

lemma smod_range:
  assumes "0 < k"
  shows "0 \<le> uint (w::32 word) smod k \<and> uint w smod k < k"
proof -
  have "0 \<le> uint w" by simp
  then have "uint w = 0 \<or> 0 < uint w" by arith
  with assms show ?thesis
    by (auto simp: signed_modulo_int_def)
qed

lemma Close_noop: "\<not> withCache ht \<Longrightarrow> Close ht = Inr ht"
  by (simp add: Close_def)

lemma RecordRequest_withCache:
  "RecordRequest st ht key = Inr (st', ht') \<Longrightarrow> withCache ht' = withCache ht"
  by (auto simp: RecordRequest_def and_then_eq_Inr split: if_splits)

lemma aggregateShards_withCache:
  "aggregateShards st ht = Inr (st', ht', t) \<Longrightarrow> withCache ht' = withCache ht"
  by (auto simp: aggregateShards_def and_then_eq_Inr Let_def)

lemma AggregateData_withCache:
  "AggregateData st ht = Inr (st', ht', p) \<Longrightarrow> withCache ht' = withCache ht"
  by (auto simp: AggregateData_def and_then_eq_Inr Let_def split: if_splits
      dest!: aggregateShards_withCache)

lemma exec_withCache:
  "exec x (st, ht) = Inr (st', ht') \<Longrightarrow> \<forall>i. x \<noteq> OpWithCache i \<Longrightarrow> withCache ht' = withCache ht"
  by (cases x) (auto simp: GetHotspots_def IsHotspot_def and_then_eq_Inr RecordRequest_withCache
      tick_def Close_def split: option.splits if_splits chan.splits dest: AggregateData_withCache)

lemma run_withCache:
  "run xs (st, ht) = Inr (st', ht') \<Longrightarrow> \<forall>i. OpWithCache i \<notin> set xs \<Longrightarrow>
   withCache ht' = withCache ht"
proof (induction xs arbitrary: st ht)
  case Nil
  then show ?case by simp
next
  case (Cons x xs)
  then obtain st1 ht1 where e: "exec x (st, ht) = Inr (st1, ht1)"
    and r: "run xs (st1, ht1) = Inr (st', ht')"
    by (auto split: sum.splits)
  from Cons.prems(2) have "\<forall>i. x \<noteq> OpWithCache i" "\<forall>i. OpWithCache i \<notin> set xs"
    by auto
  with Cons.IH [OF r] exec_withCache [OF e] show ?case by simp
qed

lemma AggregateData_blocks: "withCache ht \<Longrightarrow> AggregateData st ht = Inl BlocksForever"
  by (auto simp: AggregateData_def RLock_def Lock_def Let_def)

lemma same_data_refl [simp]: "same_data st st"
  by (simp add: same_data_def)

lemma same_data_trans: "same_data a b \<Longrightarrow> same_data b c \<Longrightarrow> same_data a c"
  by (simp add: same_data_def)

lemma permuted_refl [simp]: "permuted st h st h"
  by (simp add: permuted_def)

lemma permuted_trans: "permuted a h b h' \<Longrightarrow> permuted b h' c h'' \<Longrightarrow> permuted a h c h''"
  by (auto simp: permuted_def intro: same_data_trans)

lemma setIndex_nth: "setIndex st r i ! r' = (if r' = r \<and> r < length st then (st ! r)\<lparr>Index := i\<rparr> else st ! r')"
  by (cases "r < length st") (auto simp: setIndex_def list_update_beyond)

lemma same_data_setIndex [simp]: "same_data st (setIndex st r i)"
  by (auto simp: same_data_def keyOf_def freqOf_def setIndex_nth fun_eq_iff) (simp add: setIndex_def)

lemma idx_ok_setIndex: "idx_ok st \<Longrightarrow> - 1 \<le> i \<Longrightarrow> idx_ok (setIndex st r i)"
  by (auto simp: idx_ok_def setIndex_def dest!: set_update_subset_insert [THEN subsetD])

lemma Less_nat:
  "a < length h \<Longrightarrow> b < length h \<Longrightarrow>
   Less st h (int a) (int b) = Inr (freqOf st (h ! a) < freqOf st (h ! b))"
  by (simp add: Less_def Len_def freqOf_def)

lemma Swap_nat:
  "a < length h \<Longrightarrow> b < length h \<Longrightarrow>
   \<exists>st'. Swap st h (int a) (int b) = Inr (st', swapped h a b) \<and> permuted st h st' (swapped h a b)"
  by (auto simp: Swap_def Len_def Let_def swapped_def permuted_def mset_swap
      intro!: idx_ok_setIndex same_data_trans [OF same_data_setIndex same_data_setIndex])

lemma Swap_beyond:
  "Len h \<le> i \<Longrightarrow> Swap st h i j = Inr (st, h)"
  "Len h \<le> j \<Longrightarrow> Swap st h i j = Inr (st, h)"
  by (auto simp: Swap_def)

lemma Less_beyond: "int (length h) \<le> i \<or> int (length h) \<le> j \<Longrightarrow> Less st h i j = Inr False"
  by (auto simp: Less_def Len_def)

lemma length_swapped [simp]: "length (swapped h a b) = length h"
  by (simp add: swapped_def)

lemma permuted_length: "permuted st h st' h' \<Longrightarrow> length h' = length h"
  by (auto simp: permuted_def dest: mset_eq_length)

lemma Less_nonneg: "0 \<le> i \<Longrightarrow> 0 \<le> j \<Longrightarrow> \<exists>b. Less st h i j = Inr b"
  by (auto simp: Less_def)

lemma Swap_nonneg:
  assumes "0 \<le> i" and "0 \<le> j"
  shows "\<exists>st' h'. Swap st h i j = Inr (st', h') \<and> permuted st h st' h'"
proof (cases "Len h \<le> i \<or> Len h \<le> j")
  case True
  then show ?thesis
  proof
    assume "Len h \<le> i"
    then show ?thesis by (simp add: Swap_beyond(1))
  next
    assume "Len h \<le> j"
    then show ?thesis by (simp add: Swap_beyond(2))
  qed
next
  case False
  with assms have "nat i < length h" "nat j < length h" by (auto simp: Len_def)
  from Swap_nat [OF this, of st] assms show ?thesis by auto
qed

lemma sdiv2_nonneg: "0 \<le> x \<Longrightarrow> x sdiv 2 = x div (2::int)"
  by (cases "x = 0") (auto simp: signed_divide_int_def)

lemma up_ok:
  "- 1 \<le> j \<Longrightarrow> \<exists>st' h'. up st h j = Inr (st', h') \<and> permuted st h st' h'"
proof (induction "nat (j + 1)" arbitrary: st h j rule: less_induct)
  case less
  show ?case
  proof (cases "j \<le> 0")
    case True
    with less.prems have "j = - 1 \<or> j = 0" by arith
    then show ?thesis
      by (auto simp: up.simps [of st h j] signed_divide_int_def)
  next
    case False
    define i where "i = (j - 1) div 2"
    from False have i: "0 \<le> i" "i < j" "(j - 1) sdiv 2 = i"
      by (auto simp: i_def sdiv2_nonneg)
    from Less_nonneg [of j i st h] i False obtain b where b: "Less st h j i = Inr b"
      by auto
    show ?thesis
    proof (cases b)
      case False
      with b i show ?thesis by (simp add: up.simps [of st h j])
    next
      case True
      from Swap_nonneg [of i j st h] i obtain st1 h1
        where s: "Swap st h i j = Inr (st1, h1)" and p: "permuted st h st1 h1"
        by auto
      from i have "nat (i + 1) < nat (j + 1)" "- 1 \<le> i" by auto
      from less.hyps [OF this, of st1 h1] obtain st' h'
        where u: "up st1 h1 i = Inr (st', h')" and p': "permuted st1 h1 st' h'"
        by auto
      from b True s u i have "up st h j = Inr (st', h')"
        by (simp add: up.simps [of st h j])
      with permuted_trans [OF p p'] show ?thesis by simp
    qed
  qed
qed

lemma downLoop_step:
  assumes a: "int a = 2 * int i + 1" and c: "int c = int a + 1"
    and n: "a < n" "n \<le> length h"
  shows "downLoop st h (int i) (int n) =
     (let j = (if c < n \<and> freqOf st (h ! c) < freqOf st (h ! a) then c else a)
      in if \<not> freqOf st (h ! j) < freqOf st (h ! i) then Inr (st, h, int i)
         else case Swap st h (int i) (int j) of
                Inl e \<Rightarrow> Inl e
              | Inr (st', h') \<Rightarrow> downLoop st' h' (int j) (int n))"
proof -
  from a n have b: "a < length h" "i < length h" by auto
  note l1 = Less_nat [OF b, of st]
  show ?thesis
  proof (cases "c < n")
    case True
    with n have "c < length h" by simp
    note l2 = Less_nat [OF this b(1), of st] Less_nat [OF this b(2), of st]
    from True n l1 l2 show ?thesis
      unfolding downLoop.simps [of st h "int i" "int n"] Let_def a [symmetric] c [symmetric]
      by simp
  next
    case False
    with n l1 show ?thesis
      unfolding downLoop.simps [of st h "int i" "int n"] Let_def a [symmetric] c [symmetric]
      by simp
  qed
qed

lemma downLoop_leaf: "n \<le> 2 * i + 1 \<Longrightarrow> downLoop st h (int i) (int n) = Inr (st, h, int i)"
  by (simp add: downLoop.simps [of st h "int i" "int n"])

lemma downLoop_nat:
  assumes "2 * i + 1 < n" "n \<le> length h"
  shows "downLoop st h (int i) (int n) =
     (let j = (if 2 * i + 2 < n \<and> freqOf st (h ! (2 * i + 2)) < freqOf st (h ! (2 * i + 1))
               then 2 * i + 2 else 2 * i + 1)
      in if \<not> freqOf st (h ! j) < freqOf st (h ! i) then Inr (st, h, int i)
         else case Swap st h (int i) (int j) of
                Inl e \<Rightarrow> Inl e
              | Inr (st', h') \<Rightarrow> downLoop st' h' (int j) (int n))"
  by (rule downLoop_step) (use assms in auto)

lemma swapped_nth:
  "i < length h \<Longrightarrow> j < length h \<Longrightarrow>
   swapped h i j ! k = (if k = j then h ! i else if k = i then h ! j else h ! k)"
  by (auto simp: swapped_def nth_list_update)

lemma sift_inv_done:
  assumes "sift_inv f h l i n"
    and "\<forall>c. c < n \<and> (c = 2 * i + 1 \<or> c = 2 * i + 2) \<longrightarrow> f (h ! i) \<le> f (h ! c)"
  shows "heap_from f h l n"
  unfolding heap_from_def
proof (intro allI impI)
  fix p c
  assume a: "l \<le> p \<and> c < n \<and> (c = 2 * p + 1 \<or> c = 2 * p + 2)"
  show "f (h ! p) \<le> f (h ! c)"
  proof (cases "p = i")
    case True
    with a assms(2) show ?thesis by blast
  next
    case False
    with a assms(1) show ?thesis unfolding sift_inv_def by blast
  qed
qed

lemma heap_from_leaves: "n \<le> 2 * l + 1 \<Longrightarrow> heap_from f h l n"
  unfolding heap_from_def by auto

lemma heap_from_root_min:
  assumes "heap_from f h 0 n" and "k < n"
  shows "f (h ! 0) \<le> f (h ! k)"
  using assms(2)
proof (induction k rule: less_induct)
  case (less k)
  show ?case
  proof (cases k)
    case 0
    then show ?thesis by simp
  next
    case (Suc m)
    define p where "p = m div 2"
    have c: "k = 2 * p + 1 \<or> k = 2 * p + 2" unfolding p_def Suc by presburger
    then have "p < k" by auto
    with less have "f (h ! 0) \<le> f (h ! p)" by auto
    moreover from assms(1) c less.prems have "f (h ! p) \<le> f (h ! k)"
      unfolding heap_from_def by blast
    ultimately show ?thesis by simp
  qed
qed

lemma sift_inv_swap:
  assumes s: "sift_inv f h l i n" and l: "l \<le> i" and j: "j < n" "n \<le> length h"
    and ch: "j = 2 * i + 1 \<or> j = 2 * i + 2"
    and lt: "f (h ! j) < f (h ! i)"
    and mn: "\<forall>c. c < n \<and> (c = 2 * i + 1 \<or> c = 2 * i + 2) \<longrightarrow> f (h ! j) \<le> f (h ! c)"
  shows "sift_inv f (swapped h i j) l j n"
proof -
  from j ch have b: "i < length h" "j < length h" "i < j" by auto
  note nth = swapped_nth [OF b(1,2)]
  from s have s1: "\<And>p c. l \<le> p \<Longrightarrow> p \<noteq> i \<Longrightarrow> c < n \<Longrightarrow> c = 2 * p + 1 \<or> c = 2 * p + 2 \<Longrightarrow> f (h ! p) \<le> f (h ! c)"
    and s2: "\<And>p c. l \<le> p \<Longrightarrow> i = 2 * p + 1 \<or> i = 2 * p + 2 \<Longrightarrow> c < n \<Longrightarrow> c = 2 * i + 1 \<or> c = 2 * i + 2 \<Longrightarrow> f (h ! p) \<le> f (h ! c)"
    unfolding sift_inv_def by blast+
  show ?thesis
    unfolding sift_inv_def
  proof (intro conjI allI impI)
    fix p c
    assume a: "l \<le> p \<and> p \<noteq> j \<and> c < n \<and> (c = 2 * p + 1 \<or> c = 2 * p + 2)"
    show "f (swapped h i j ! p) \<le> f (swapped h i j ! c)"
    proof (cases "p = i")
      case True
      with a mn lt show ?thesis by (auto simp: nth)
    next
      case False
      with a ch have cj: "c \<noteq> j" by auto
      show ?thesis
      proof (cases "c = i")
        case True
        with a False s2 [of p j] j ch show ?thesis by (auto simp: nth)
      next
        case ci: False
        with a False cj s1 [of p c] show ?thesis by (auto simp: nth)
      qed
    qed
  next
    fix p c
    assume a: "l \<le> p \<and> (j = 2 * p + 1 \<or> j = 2 * p + 2) \<and> c < n \<and> (c = 2 * j + 1 \<or> c = 2 * j + 2)"
    with ch have p: "p = i" by auto
    from a b have c: "c \<noteq> i" "c \<noteq> j" by auto
    from a l b have "f (h ! j) \<le> f (h ! c)"
      by (intro s1 [of j c]) auto
    with p c b show "f (swapped h i j ! p) \<le> f (swapped h i j ! c)"
      by (simp add: nth)
  qed
qed

lemma heap_from_sift_inv:
  assumes "heap_from f h (Suc i) n"
  shows "sift_inv f h i i n"
  unfolding sift_inv_def
proof (intro conjI allI impI)
  fix p c
  assume a: "i \<le> p \<and> p \<noteq> i \<and> c < n \<and> (c = 2 * p + 1 \<or> c = 2 * p + 2)"
  then have "Suc i \<le> p" by simp
  with a assms show "f (h ! p) \<le> f (h ! c)"
    unfolding heap_from_def by blast
next
  fix p c
  assume "i \<le> p \<and> (i = 2 * p + 1 \<or> i = 2 * p + 2) \<and> c < n \<and> (c = 2 * i + 1 \<or> c = 2 * i + 2)"
  then have False by arith
  then show "f (h ! p) \<le> f (h ! c)" ..
qed

lemma permuted_freqOf: "permuted st h st' h' \<Longrightarrow> freqOf st' = freqOf st"
  by (simp add: permuted_def same_data_def)

lemma permuted_keyOf: "permuted st h st' h' \<Longrightarrow> keyOf st' = keyOf st"
  by (simp add: permuted_def same_data_def)

lemma downLoop_sift:
  assumes "n \<le> length h"
  shows "\<exists>st' h' i'. downLoop st h (int i) (int n) = Inr (st', h', i') \<and> permuted st h st' h' \<and>
           (\<forall>k. n \<le> k \<longrightarrow> h' ! k = h ! k) \<and>
           (\<forall>l. l \<le> i \<and> sift_inv (freqOf st) h l i n \<longrightarrow> heap_from (freqOf st) h' l n)"
  using assms
proof (induction "n - i" arbitrary: st h i rule: less_induct)
  case less
  show ?case
  proof (cases "n \<le> 2 * i + 1")
    case True
    have "\<forall>l. l \<le> i \<and> sift_inv (freqOf st) h l i n \<longrightarrow> heap_from (freqOf st) h l n"
      using True by (auto intro!: sift_inv_done)
    with True show ?thesis
      by (simp add: downLoop_leaf)
  next
    case False
    define j where "j = (if 2 * i + 2 < n \<and> freqOf st (h ! (2 * i + 2)) < freqOf st (h ! (2 * i + 1))
                         then 2 * i + 2 else 2 * i + 1)"
    from False have jn: "j < n" "j = 2 * i + 1 \<or> j = 2 * i + 2" "i < j"
      by (auto simp: j_def)
    have mn: "\<forall>c. c < n \<and> (c = 2 * i + 1 \<or> c = 2 * i + 2) \<longrightarrow> freqOf st (h ! j) \<le> freqOf st (h ! c)"
      by (auto simp: j_def)
    have eq: "downLoop st h (int i) (int n) =
       (if \<not> freqOf st (h ! j) < freqOf st (h ! i) then Inr (st, h, int i)
        else case Swap st h (int i) (int j) of
               Inl e \<Rightarrow> Inl e
             | Inr (st', h') \<Rightarrow> downLoop st' h' (int j) (int n))"
      unfolding j_def
      by (rule downLoop_nat [unfolded Let_def]) (use False less.prems in auto)
    show ?thesis
    proof (cases "freqOf st (h ! j) < freqOf st (h ! i)")
      case nlt: False
      have "\<forall>l. l \<le> i \<and> sift_inv (freqOf st) h l i n \<longrightarrow> heap_from (freqOf st) h l n"
      proof (intro allI impI)
        fix l
        assume a: "l \<le> i \<and> sift_inv (freqOf st) h l i n"
        show "heap_from (freqOf st) h l n"
        proof (rule sift_inv_done)
          show "sift_inv (freqOf st) h l i n" using a by simp
          show "\<forall>c. c < n \<and> (c = 2 * i + 1 \<or> c = 2 * i + 2) \<longrightarrow> freqOf st (h ! i) \<le> freqOf st (h ! c)"
            using mn nlt by fastforce
        qed
      qed
      with nlt eq show ?thesis by simp
    next
      case lt: True
      from jn less.prems have b: "i < length h" "j < length h" by auto
      from Swap_nat [OF b, of st] obtain st1
        where s: "Swap st h (int i) (int j) = Inr (st1, swapped h i j)"
          and p: "permuted st h st1 (swapped h i j)"
        by auto
      from jn have "n - j < n - i" by auto
      from less.hyps [OF this, of "swapped h i j" st1] less.prems
      obtain st' h' i' where
        d: "downLoop st1 (swapped h i j) (int j) (int n) = Inr (st', h', i')"
        and p': "permuted st1 (swapped h i j) st' h'"
        and k: "\<forall>k. n \<le> k \<longrightarrow> h' ! k = swapped h i j ! k"
        and hf: "\<forall>l. l \<le> j \<and> sift_inv (freqOf st1) (swapped h i j) l j n \<longrightarrow> heap_from (freqOf st1) h' l n"
        by auto
      have f1: "freqOf st1 = freqOf st" using p by (rule permuted_freqOf)
      have r: "downLoop st h (int i) (int n) = Inr (st', h', i')"
        using eq lt s d by simp
      have k': "\<forall>k. n \<le> k \<longrightarrow> h' ! k = h ! k"
        using k jn b by (auto simp: swapped_nth)
      have hf': "\<forall>l. l \<le> i \<and> sift_inv (freqOf st) h l i n \<longrightarrow> heap_from (freqOf st) h' l n"
      proof (intro allI impI)
        fix l
        assume a: "l \<le> i \<and> sift_inv (freqOf st) h l i n"
        have "sift_inv (freqOf st) (swapped h i j) l j n"
          using a jn less.prems lt mn by (intro sift_inv_swap) auto
        with hf a jn show "heap_from (freqOf st) h' l n"
          by (auto simp: f1)
      qed
      from r permuted_trans [OF p p'] k' hf' show ?thesis by simp
    qed
  qed
qed

lemma downLoop_ok:
  assumes "n \<le> Len h"
  shows "\<exists>st' h' i'. downLoop st h i n = Inr (st', h', i') \<and> permuted st h st' h'"
proof (cases "2 * i + 1 \<ge> n \<or> 2 * i + 1 < 0")
  case True
  then show ?thesis
    by (auto simp: downLoop.simps [of st h i n])
next
  case False
  then have "0 \<le> i" "0 \<le> n" by auto
  then obtain i' n' where e: "i = int i'" "n = int n'"
    using nonneg_int_cases by metis
  with assms have "n' \<le> length h" by (simp add: Len_def)
  from downLoop_sift [OF this, of st i'] e show ?thesis by auto
qed

lemma down_ok:
  assumes "n \<le> Len h"
  shows "\<exists>st' h' moved. down st h i n = Inr (st', h', moved) \<and> permuted st h st' h'"
  using downLoop_ok [OF assms, of st i] by (auto simp: down_def)

lemma heap_Fix_ok:
  assumes "- 1 \<le> i"
  shows "\<exists>st' h'. heap_Fix st h i = Inr (st', h') \<and> permuted st h st' h'"
proof -
  from down_ok [of "Len h" h st i] obtain st1 h1 moved
    where d: "down st h i (Len h) = Inr (st1, h1, moved)" and p: "permuted st h st1 h1"
    by auto
  show ?thesis
  proof (cases moved)
    case True
    with d p show ?thesis by (simp add: heap_Fix_def)
  next
    case False
    from up_ok [OF assms, of st1 h1] obtain st' h'
      where u: "up st1 h1 i = Inr (st', h')" and p': "permuted st1 h1 st' h'"
      by auto
    with d False permuted_trans [OF p p'] show ?thesis by (simp add: heap_Fix_def)
  qed
qed

lemma heap_Push_ok:
  "\<exists>st' h'. heap_Push st h x = Inr (st', h') \<and> same_data st st' \<and>
     mset h' = add_mset x (mset h) \<and> (idx_ok st \<longrightarrow> idx_ok st')"
proof -
  have "- 1 \<le> Len (h @ [x]) - 1" by (simp add: Len_def)
  from up_ok [OF this, of "setIndex st x (Len h)" "h @ [x]"] obtain st' h'
    where u: "up (setIndex st x (Len h)) (h @ [x]) (Len (h @ [x]) - 1) = Inr (st', h')"
      and p: "permuted (setIndex st x (Len h)) (h @ [x]) st' h'"
    by auto
  have "idx_ok st \<longrightarrow> idx_ok (setIndex st x (Len h))"
    by (auto intro: idx_ok_setIndex simp: Len_def)
  moreover have "same_data st st'"
    using p by (auto simp: permuted_def intro: same_data_trans [OF same_data_setIndex])
  ultimately show ?thesis
    using u p by (auto simp: heap_Push_def Push_def Let_def permuted_def)
qed

lemma heap_Pop_ok:
  assumes "h \<noteq> []"
  shows "\<exists>st' h'. heap_Pop st h = Inr (st', h', h ! 0) \<and> same_data st st' \<and>
     mset h = add_mset (h ! 0) (mset h') \<and> (idx_ok st \<longrightarrow> idx_ok st') \<and>
     (heap_from (freqOf st) h 0 (length h) \<longrightarrow> heap_from (freqOf st) h' 0 (length h'))"
proof -
  define n where "n = length h - 1"
  from assms have n: "n < length h" "0 < length h" "Len h - 1 = int n"
    by (cases h; simp add: n_def Len_def)+
  from Swap_nat [OF n(2,1), of st] obtain st1
    where s: "Swap st h (int 0) (int n) = Inr (st1, swapped h 0 n)"
      and p1: "permuted st h st1 (swapped h 0 n)"
    by auto
  have "n \<le> length (swapped h 0 n)" using n by simp
  from downLoop_sift [OF this, of st1 0] obtain st2 h2 i'
    where d: "downLoop st1 (swapped h 0 n) (int 0) (int n) = Inr (st2, h2, i')"
      and p2: "permuted st1 (swapped h 0 n) st2 h2"
      and k: "\<forall>k. n \<le> k \<longrightarrow> h2 ! k = swapped h 0 n ! k"
      and hf: "\<forall>l. l \<le> 0 \<and> sift_inv (freqOf st1) (swapped h 0 n) l 0 n \<longrightarrow> heap_from (freqOf st1) h2 l n"
    by blast
  from permuted_trans [OF p1 p2] have p: "permuted st h st2 h2" .
  then have len: "length h2 = length h" by (rule permuted_length)
  with n have ne: "h2 \<noteq> []" by auto
  have lst: "last h2 = h ! 0"
    using k n len ne by (simp add: last_conv_nth n_def swapped_nth)
  have r: "heap_Pop st h = Inr (setIndex st2 (h ! 0) (- 1), butlast h2, h ! 0)"
    using s d n ne lst by (simp add: heap_Pop_def Let_def down_def Pop_def)
  have sd: "same_data st (setIndex st2 (h ! 0) (- 1))"
    using p same_data_trans [OF _ same_data_setIndex] by (auto simp: permuted_def)
  have ms: "mset h = add_mset (h ! 0) (mset (butlast h2))"
  proof -
    from ne have "h2 = butlast h2 @ [last h2]" by simp
    then have "mset h2 = add_mset (last h2) (mset (butlast h2))"
      by (metis mset.simps(2) mset_append union_mset_add_mset_right add.right_neutral mset.simps(1))
    with p lst show ?thesis by (simp add: permuted_def)
  qed
  have ix: "idx_ok st \<longrightarrow> idx_ok (setIndex st2 (h ! 0) (- 1))"
    using p by (auto simp: permuted_def intro: idx_ok_setIndex)
  have hp: "heap_from (freqOf st) h 0 (length h) \<longrightarrow> heap_from (freqOf st) (butlast h2) 0 (length (butlast h2))"
  proof
    assume a: "heap_from (freqOf st) h 0 (length h)"
    have f1: "freqOf st1 = freqOf st" using p1 by (rule permuted_freqOf)
    have "sift_inv (freqOf st) (swapped h 0 n) 0 0 n"
      unfolding sift_inv_def
    proof (intro conjI allI impI)
      fix p c
      assume b: "0 \<le> p \<and> p \<noteq> 0 \<and> c < n \<and> (c = 2 * p + 1 \<or> c = 2 * p + 2)"
      then have "p < n" "c \<noteq> 0" "p \<noteq> n" "c \<noteq> n" by auto
      with b n have "swapped h 0 n ! p = h ! p" "swapped h 0 n ! c = h ! c"
        by (simp_all add: swapped_nth)
      moreover from a b n have "freqOf st (h ! p) \<le> freqOf st (h ! c)"
        unfolding heap_from_def by (metis less_trans le0)
      ultimately show "freqOf st (swapped h 0 n ! p) \<le> freqOf st (swapped h 0 n ! c)"
        by simp
    next
      fix p c :: nat
      assume "0 \<le> p \<and> (0 = 2 * p + 1 \<or> 0 = 2 * p + 2) \<and> c < n \<and> (c = 2 * 0 + 1 \<or> c = 2 * 0 + 2)"
      then have False by arith
      then show "freqOf st (swapped h 0 n ! p) \<le> freqOf st (swapped h 0 n ! c)" ..
    qed
    with hf f1 have h2: "heap_from (freqOf st) h2 0 n" by simp
    have l: "length (butlast h2) = n" using len by (simp add: n_def)
    show "heap_from (freqOf st) (butlast h2) 0 (length (butlast h2))"
      unfolding l heap_from_def
    proof (intro allI impI)
      fix p c
      assume b: "0 \<le> p \<and> c < n \<and> (c = 2 * p + 1 \<or> c = 2 * p + 2)"
      then have "p < n" by auto
      with b l have "butlast h2 ! p = h2 ! p" "butlast h2 ! c = h2 ! c"
        by (simp_all add: nth_butlast)
      with h2 b show "freqOf st (butlast h2 ! p) \<le> freqOf st (butlast h2 ! c)"
        unfolding heap_from_def by simp
    qed
  qed
  from r sd ms ix hp show ?thesis by simp
qed

lemma heap_from_cong: "f' = f \<Longrightarrow> heap_from f' h l n = heap_from f h l n"
  by simp

lemma initLoop_ok:
  assumes "n = length h" and "heap_from (freqOf st) h (nat (i + 1)) n" and "- 1 \<le> i"
  shows "\<exists>st' h'. initLoop st h i (int n) = Inr (st', h') \<and> permuted st h st' h' \<and>
           heap_from (freqOf st) h' 0 n"
  using assms
proof (induction "nat (i + 1)" arbitrary: st h i rule: less_induct)
  case less
  show ?case
  proof (cases "i < 0")
    case True
    with less.prems have "i = - 1" by simp
    with less.prems show ?thesis
      by (simp add: initLoop.simps [of st h "- 1"])
  next
    case False
    define i' where "i' = nat i"
    from False have i: "i = int i'" "nat (i + 1) = Suc i'" by (auto simp: i'_def)
    from less.prems have "n \<le> length h" by simp
    from downLoop_sift [OF this, of st i'] obtain st1 h1 k
      where d: "downLoop st h (int i') (int n) = Inr (st1, h1, k)"
        and p: "permuted st h st1 h1"
        and hf: "\<forall>l. l \<le> i' \<and> sift_inv (freqOf st) h l i' n \<longrightarrow> heap_from (freqOf st) h1 l n"
      by blast
    from less.prems(2) i have "sift_inv (freqOf st) h i' i' n"
      by (simp add: heap_from_sift_inv)
    with hf have h1: "heap_from (freqOf st) h1 i' n" by simp
    have f1: "freqOf st1 = freqOf st" using p by (rule permuted_freqOf)
    have l1: "n = length h1" using p less.prems(1) by (simp add: permuted_length)
    have "nat (i - 1 + 1) < nat (i + 1)" using False by simp
    moreover have "heap_from (freqOf st1) h1 (nat (i - 1 + 1)) n"
      using h1 i by (simp add: f1)
    moreover have "- 1 \<le> i - 1" using False by simp
    ultimately obtain st' h'
      where r: "initLoop st1 h1 (i - 1) (int n) = Inr (st', h')"
        and p': "permuted st1 h1 st' h'"
        and hf': "heap_from (freqOf st1) h' 0 n"
      using less.hyps [of "i - 1" h1 st1] l1 by blast
    have "initLoop st h i (int n) = Inr (st', h')"
      using d r unfolding i(1) by (simp add: initLoop.simps [of st h "int i'"] down_def)
    with permuted_trans [OF p p'] hf' show ?thesis by (simp add: f1)
  qed
qed

lemma heap_Init_ok:
  "\<exists>st' h'. heap_Init st h = Inr (st', h') \<and> permuted st h st' h' \<and>
     heap_from (freqOf st) h' 0 (length h')"
proof -
  define n where "n = length h"
  have i: "Len h sdiv 2 - 1 = int (n div 2) - 1"
    by (simp add: Len_def n_def sdiv2_nonneg zdiv_int)
  have "heap_from (freqOf st) h (nat (int (n div 2) - 1 + 1)) n"
    by (rule heap_from_leaves) simp
  from initLoop_ok [OF n_def this] obtain st' h'
    where r: "initLoop st h (int (n div 2) - 1) (int n) = Inr (st', h')"
      and p: "permuted st h st' h'" and hf: "heap_from (freqOf st) h' 0 n"
    by auto
  from p have "length h' = n" by (simp add: permuted_length n_def)
  with r p hf i show ?thesis
    by (simp add: heap_Init_def Let_def Len_def n_def)
qed

lemma popLoop_ok:
  assumes "heap_from (freqOf st) h 0 (length h)"
  shows "\<exists>st' rs. popLoop (length h) st h = Inr (st', map (keyOf st) rs) \<and> same_data st st' \<and>
           mset rs = mset h \<and> sorted (map (freqOf st) rs) \<and> (idx_ok st \<longrightarrow> idx_ok st')"
  using assms
proof (induction "length h" arbitrary: st h)
  case 0
  then show ?case by simp
next
  case (Suc k)
  then have ne: "h \<noteq> []" by auto
  from heap_Pop_ok [OF ne, of st] Suc.prems obtain st1 h1
    where pop: "heap_Pop st h = Inr (st1, h1, h ! 0)" and sd: "same_data st st1"
      and ms: "mset h = add_mset (h ! 0) (mset h1)" and ix: "idx_ok st \<longrightarrow> idx_ok st1"
      and hf: "heap_from (freqOf st) h1 0 (length h1)"
    by blast
  from sd have f1: "freqOf st1 = freqOf st" and k1: "keyOf st1 = keyOf st"
    by (simp_all add: same_data_def)
  from ms have "length h = Suc (length h1)"
    by (metis size_mset size_add_mset)
  with Suc.hyps(2) have len: "k = length h1" by simp
  from Suc.hyps(1) [OF len, of st1] hf obtain st' rs
    where r: "popLoop (length h1) st1 h1 = Inr (st', map (keyOf st1) rs)"
      and sd': "same_data st1 st'" and ms': "mset rs = mset h1"
      and so: "sorted (map (freqOf st1) rs)" and ix': "idx_ok st1 \<longrightarrow> idx_ok st'"
    by (auto simp: f1)
  have "keyOf st1 (h ! 0) = keyOf st (h ! 0)" by (simp add: k1)
  then have "Key (st1 ! (h ! 0)) = keyOf st (h ! 0)" by (simp add: keyOf_def)
  then have "popLoop (length h) st h = Inr (st', map (keyOf st) (h ! 0 # rs))"
    using pop r Suc.hyps(2) len by (simp add: k1 flip: Suc.hyps(2))
  moreover have "mset (h ! 0 # rs) = mset h" using ms ms' by simp
  moreover have "sorted (map (freqOf st) (h ! 0 # rs))"
  proof -
    have "\<forall>r\<in>set rs. freqOf st (h ! 0) \<le> freqOf st r"
    proof
      fix r
      assume "r \<in> set rs"
      with ms' have "r \<in> set h1" by (metis set_mset_mset)
      with ms have "r \<in> set h" by (metis set_mset_mset set_mset_add_mset_insert insertCI)
      then obtain j where "j < length h" "h ! j = r" by (auto simp: in_set_conv_nth)
      with heap_from_root_min [OF Suc.prems, of j] show "freqOf st (h ! 0) \<le> freqOf st r"
        by simp
    qed
    with so show ?thesis by (simp add: f1)
  qed
  ultimately show ?case
    using same_data_trans [OF sd sd'] ix ix' by blast
qed

lemma shard_GetHotspots_ok:
  "\<exists>st' rs. shard_GetHotspots st s = Inr (st', map (keyOf st) rs) \<and> same_data st st' \<and>
     mset rs = mset (minHeap s) \<and> sorted (map (freqOf st) rs) \<and> (idx_ok st \<longrightarrow> idx_ok st')"
proof -
  from heap_Init_ok [of st "minHeap s"] obtain st1 h1
    where i: "heap_Init st (minHeap s) = Inr (st1, h1)" and p: "permuted st (minHeap s) st1 h1"
      and hf: "heap_from (freqOf st) h1 0 (length h1)"
    by auto
  from p have f1: "freqOf st1 = freqOf st" and k1: "keyOf st1 = keyOf st"
    and sd: "same_data st st1" and ms: "mset h1 = mset (minHeap s)"
    and ix: "idx_ok st \<longrightarrow> idx_ok st1"
    by (simp_all add: permuted_def same_data_def)
  from popLoop_ok [of st1 h1] hf obtain st' rs
    where r: "popLoop (length h1) st1 h1 = Inr (st', map (keyOf st1) rs)"
      and sd': "same_data st1 st'" and ms': "mset rs = mset h1"
      and so: "sorted (map (freqOf st1) rs)" and ix': "idx_ok st1 \<longrightarrow> idx_ok st'"
    by (auto simp: f1)
  have "shard_GetHotspots st s = Inr (st', map (keyOf st) rs)"
    using i r by (simp add: shard_GetHotspots_def k1)
  with same_data_trans [OF sd sd'] ms ms' so ix ix' show ?thesis
    by (auto simp: f1)
qed

lemma processKeyFreq_room:
  assumes "Len (minHeap t) < shard.topN t"
  shows "\<exists>st' h'. processKeyFreq st t kf =
            Inr (st', t\<lparr>minHeap := h', keyFreqs := (keyFreqs t)(keyOf st kf \<mapsto> kf)\<rparr>) \<and>
          same_data st st' \<and> mset h' = add_mset kf (mset (minHeap t)) \<and>
          (idx_ok st \<longrightarrow> idx_ok st')"
proof -
  from heap_Push_ok [of st "minHeap t" kf] obtain st' h'
    where p: "heap_Push st (minHeap t) kf = Inr (st', h')" and sd: "same_data st st'"
      and ms: "mset h' = add_mset kf (mset (minHeap t))" and ix: "idx_ok st \<longrightarrow> idx_ok st'"
    by blast
  from sd have "keyOf st' kf = keyOf st kf" by (simp add: same_data_def)
  then have "Key (st' ! kf) = keyOf st kf" by (simp add: keyOf_def)
  with assms p have "processKeyFreq st t kf =
      Inr (st', t\<lparr>minHeap := h', keyFreqs := (keyFreqs t)(keyOf st kf \<mapsto> kf)\<rparr>)"
    by (simp add: processKeyFreq_def)
  with sd ms ix show ?thesis by blast
qed

lemma processKeyFreq_evict:
  assumes "\<not> Len (minHeap t) < shard.topN t" and "minHeap t \<noteq> []"
    and "freqOf st (minHeap t ! 0) \<le> freqOf st kf"
  shows "\<exists>st' h' h1. processKeyFreq st t kf =
            Inr (st', t\<lparr>minHeap := h',
                        keyFreqs := ((keyFreqs t)(keyOf st (minHeap t ! 0) := None))(keyOf st kf \<mapsto> kf)\<rparr>) \<and>
          same_data st st' \<and> mset (minHeap t) = add_mset (minHeap t ! 0) (mset h1) \<and>
          mset h' = add_mset kf (mset h1) \<and> (idx_ok st \<longrightarrow> idx_ok st')"
proof -
  from heap_Pop_ok [OF assms(2), of st] obtain st1 h1
    where pop: "heap_Pop st (minHeap t) = Inr (st1, h1, minHeap t ! 0)" and sd1: "same_data st st1"
      and ms1: "mset (minHeap t) = add_mset (minHeap t ! 0) (mset h1)"
      and ix1: "idx_ok st \<longrightarrow> idx_ok st1"
    by blast
  from heap_Push_ok [of st1 h1 kf] obtain st' h'
    where p: "heap_Push st1 h1 kf = Inr (st', h')" and sd2: "same_data st1 st'"
      and ms2: "mset h' = add_mset kf (mset h1)" and ix2: "idx_ok st1 \<longrightarrow> idx_ok st'"
    by blast
  from sd1 have "keyOf st1 (minHeap t ! 0) = keyOf st (minHeap t ! 0)" by (simp add: same_data_def)
  then have k1: "Key (st1 ! (minHeap t ! 0)) = keyOf st (minHeap t ! 0)" by (simp add: keyOf_def)
  from same_data_trans [OF sd1 sd2] have sd: "same_data st st'" .
  then have "keyOf st' kf = keyOf st kf" by (simp add: same_data_def)
  then have k2: "Key (st' ! kf) = keyOf st kf" by (simp add: keyOf_def)
  from assms(3) have "Frequency (st ! (minHeap t ! 0)) \<le> Frequency (st ! kf)"
    by (simp add: freqOf_def)
  with assms(1,2) pop p k1 k2 have "processKeyFreq st t kf =
      Inr (st', t\<lparr>minHeap := h',
                  keyFreqs := ((keyFreqs t)(keyOf st (minHeap t ! 0) := None))(keyOf st kf \<mapsto> kf)\<rparr>)"
    by (simp add: processKeyFreq_def Let_def)
  with sd ms1 ms2 ix1 ix2 show ?thesis by blast
qed

lemma processKeyFreq_drop:
  assumes "\<not> Len (minHeap t) < shard.topN t" and "minHeap t \<noteq> []"
    and "\<not> freqOf st (minHeap t ! 0) \<le> freqOf st kf"
  shows "processKeyFreq st t kf = Inr (st, t)"
  using assms by (simp add: processKeyFreq_def freqOf_def)

lemma same_data_keyOf: "same_data st st' \<Longrightarrow> keyOf st' = keyOf st"
  by (simp add: same_data_def)

lemma same_data_freqOf: "same_data st st' \<Longrightarrow> freqOf st' = freqOf st"
  by (simp add: same_data_def)

lemma same_data_length: "same_data st st' \<Longrightarrow> length st' = length st"
  by (simp add: same_data_def)

lemma mset_add_set: "mset h' = add_mset x (mset h) \<Longrightarrow> set h' = insert x (set h)"
  by (metis set_mset_mset set_mset_add_mset_insert)

lemma mset_add_length: "mset h' = add_mset x (mset h) \<Longrightarrow> length h' = Suc (length h)"
  by (metis size_mset size_add_mset)

lemma mset_add_distinct_map:
  assumes "mset h' = add_mset x (mset h)"
  shows "distinct (map f h') \<longleftrightarrow> f x \<notin> f ` set h \<and> distinct (map f h)"
proof -
  from assms have "mset (map f h') = mset (map f (x # h))" by simp
  then have "distinct (map f h') = distinct (map f (x # h))"
    by (rule mset_eq_imp_distinct_iff)
  then show ?thesis by simp
qed

lemma shard_wf_insert:
  assumes wf: "shard_wf st t" and kf: "kf < length st" "keyFreqs t (keyOf st kf) = None"
    and ms: "mset h' = add_mset kf (mset (minHeap t))"
    and len: "Len h' \<le> shard.topN t" and sd: "same_data st st'"
  shows "shard_wf st' (t\<lparr>minHeap := h', keyFreqs := (keyFreqs t)(keyOf st kf \<mapsto> kf)\<rparr>)"
proof -
  note k = same_data_keyOf [OF sd] and l = same_data_length [OF sd]
  note s = mset_add_set [OF ms]
  from wf have d: "dom (keyFreqs t) = keyOf st ` set (minHeap t)"
    and lk: "\<forall>r\<in>set (minHeap t). keyFreqs t (keyOf st r) = Some r"
    and dist: "distinct (map (keyOf st) (minHeap t))"
    and rng: "\<forall>r\<in>set (minHeap t). r < length st"
    by (simp_all add: shard_wf_def)
  from kf(2) d have nin: "keyOf st kf \<notin> keyOf st ` set (minHeap t)"
    by (metis domIff)
  have "distinct (map (keyOf st) h')"
    using mset_add_distinct_map [OF ms, of "keyOf st"] nin dist by simp
  moreover have "\<forall>r\<in>set h'. r < length st" using s rng kf(1) by simp
  moreover have "dom ((keyFreqs t)(keyOf st kf \<mapsto> kf)) = keyOf st ` set h'"
    using s d by simp
  moreover have "\<forall>r\<in>set h'. ((keyFreqs t)(keyOf st kf \<mapsto> kf)) (keyOf st r) = Some r"
  proof
    fix r
    assume "r \<in> set h'"
    with s have "r = kf \<or> r \<in> set (minHeap t)" by simp
    then show "((keyFreqs t)(keyOf st kf \<mapsto> kf)) (keyOf st r) = Some r"
    proof
      assume "r = kf"
      then show ?thesis by simp
    next
      assume r: "r \<in> set (minHeap t)"
      with nin have "keyOf st r \<noteq> keyOf st kf" by (metis imageI)
      with lk r show ?thesis by simp
    qed
  qed
  ultimately show ?thesis
    using len by (simp add: shard_wf_def k l)
qed

lemma shard_wf_remove:
  assumes wf: "shard_wf st t" and ms: "mset (minHeap t) = add_mset r0 (mset h1)"
  shows "shard_wf st (t\<lparr>minHeap := h1, keyFreqs := (keyFreqs t)(keyOf st r0 := None)\<rparr>)"
proof -
  note s = mset_add_set [OF ms]
  from wf have d: "dom (keyFreqs t) = keyOf st ` set (minHeap t)"
    and lk: "\<forall>r\<in>set (minHeap t). keyFreqs t (keyOf st r) = Some r"
    and dist: "distinct (map (keyOf st) (minHeap t))"
    and rng: "\<forall>r\<in>set (minHeap t). r < length st"
    and len: "Len (minHeap t) \<le> shard.topN t"
    by (simp_all add: shard_wf_def)
  from mset_add_distinct_map [OF ms, of "keyOf st"] dist
  have nin: "keyOf st r0 \<notin> keyOf st ` set h1" and d1: "distinct (map (keyOf st) h1)"
    by simp_all
  have "dom ((keyFreqs t)(keyOf st r0 := None)) = keyOf st ` set (minHeap t) - {keyOf st r0}"
    using d by simp
  also have "\<dots> = insert (keyOf st r0) (keyOf st ` set h1) - {keyOf st r0}"
    using s by simp
  also have "\<dots> = keyOf st ` set h1"
    using nin by simp
  finally have "dom ((keyFreqs t)(keyOf st r0 := None)) = keyOf st ` set h1" .
  moreover have "\<forall>r\<in>set h1. ((keyFreqs t)(keyOf st r0 := None)) (keyOf st r) = Some r"
  proof
    fix r
    assume r: "r \<in> set h1"
    with nin have "keyOf st r \<noteq> keyOf st r0" by (metis imageI)
    moreover from r s have "r \<in> set (minHeap t)" by simp
    ultimately show "((keyFreqs t)(keyOf st r0 := None)) (keyOf st r) = Some r"
      using lk by simp
  qed
  moreover have "Len h1 \<le> shard.topN t"
    using len mset_add_length [OF ms] by (simp add: Len_def)
  ultimately show ?thesis
    using d1 rng s by (simp add: shard_wf_def)
qed

lemma processKeyFreq_wf:
  assumes wf: "shard_wf st t" and kf: "kf < length st" "keyFreqs t (keyOf st kf) = None"
    and n: "0 < shard.topN t"
  shows "\<exists>st' t'. processKeyFreq st t kf = Inr (st', t') \<and> same_data st st' \<and> shard_wf st' t' \<and>
           set (minHeap t') \<subseteq> insert kf (set (minHeap t)) \<and> shard.topN t' = shard.topN t \<and>
           shard.mu t' = shard.mu t \<and> (idx_ok st \<longrightarrow> idx_ok st')"
proof (cases "Len (minHeap t) < shard.topN t")
  case True
  from processKeyFreq_room [OF True, of st kf] obtain st' h'
    where r: "processKeyFreq st t kf =
            Inr (st', t\<lparr>minHeap := h', keyFreqs := (keyFreqs t)(keyOf st kf \<mapsto> kf)\<rparr>)"
      and sd: "same_data st st'" and ms: "mset h' = add_mset kf (mset (minHeap t))"
      and ix: "idx_ok st \<longrightarrow> idx_ok st'"
    by blast
  from True mset_add_length [OF ms] have "Len h' \<le> shard.topN t" by (simp add: Len_def)
  from shard_wf_insert [OF wf kf ms this sd] r sd ix mset_add_set [OF ms] show ?thesis
    by simp
next
  case False
  with n have ne: "minHeap t \<noteq> []" by (auto simp: Len_def)
  show ?thesis
  proof (cases "freqOf st (minHeap t ! 0) \<le> freqOf st kf")
    case le: True
    from processKeyFreq_evict [OF False ne le] obtain st' h' h1
      where r: "processKeyFreq st t kf =
            Inr (st', t\<lparr>minHeap := h',
                        keyFreqs := ((keyFreqs t)(keyOf st (minHeap t ! 0) := None))(keyOf st kf \<mapsto> kf)\<rparr>)"
        and sd: "same_data st st'"
        and ms1: "mset (minHeap t) = add_mset (minHeap t ! 0) (mset h1)"
        and ms2: "mset h' = add_mset kf (mset h1)" and ix: "idx_ok st \<longrightarrow> idx_ok st'"
      by blast
    let ?t1 = "t\<lparr>minHeap := h1, keyFreqs := (keyFreqs t)(keyOf st (minHeap t ! 0) := None)\<rparr>"
    from shard_wf_remove [OF wf ms1] have wf1: "shard_wf st ?t1" .
    have k1: "keyFreqs ?t1 (keyOf st kf) = None" using kf(2) by simp
    have "Len h' \<le> shard.topN ?t1"
      using wf mset_add_length [OF ms1] mset_add_length [OF ms2]
      by (simp add: shard_wf_def Len_def)
    moreover have "mset h' = add_mset kf (mset (minHeap ?t1))" using ms2 by simp
    ultimately have "shard_wf st' (?t1\<lparr>minHeap := h', keyFreqs := (keyFreqs ?t1)(keyOf st kf \<mapsto> kf)\<rparr>)"
      using shard_wf_insert [OF wf1 kf(1) k1 _ _ sd] by blast
    then have "shard_wf st' (t\<lparr>minHeap := h',
            keyFreqs := ((keyFreqs t)(keyOf st (minHeap t ! 0) := None))(keyOf st kf \<mapsto> kf)\<rparr>)"
      by simp
    moreover have "set h' \<subseteq> insert kf (set (minHeap t))"
      using mset_add_set [OF ms1] mset_add_set [OF ms2] by auto
    ultimately show ?thesis using r sd ix by simp
  next
    case nle: False
    from processKeyFreq_drop [OF False ne nle] wf show ?thesis by auto
  qed
qed

lemma shard_wf_ext:
  assumes wf: "shard_wf st s" and len: "length st \<le> length st'"
    and k: "\<forall>r<length st. keyOf st' r = keyOf st r"
  shows "shard_wf st' s"
proof -
  from wf have rng: "\<forall>r\<in>set (minHeap s). r < length st" by (simp add: shard_wf_def)
  with k have e: "\<forall>r\<in>set (minHeap s). keyOf st' r = keyOf st r" by simp
  then have m: "map (keyOf st') (minHeap s) = map (keyOf st) (minHeap s)" by simp
  from e have i: "keyOf st' ` set (minHeap s) = keyOf st ` set (minHeap s)" by simp
  from rng len have r': "\<forall>r\<in>set (minHeap s). r < length st'" by auto
  from wf e have l': "\<forall>r\<in>set (minHeap s). keyFreqs s (keyOf st' r) = Some r"
    by (simp add: shard_wf_def)
  from wf have "distinct (map (keyOf st) (minHeap s))"
    "dom (keyFreqs s) = keyOf st ` set (minHeap s)" "Len (minHeap s) \<le> shard.topN s"
    by (simp_all add: shard_wf_def)
  with r' l' show ?thesis
    unfolding shard_wf_def m i by blast
qed

lemma shard_wf_mu [simp]: "shard_wf st (s\<lparr>shard.mu := m\<rparr>) = shard_wf st s"
  by (simp add: shard_wf_def)

lemma shard_wf_perm:
  assumes wf: "shard_wf st s" and ms: "mset h' = mset (minHeap s)"
  shows "shard_wf st (s\<lparr>minHeap := h'\<rparr>)"
proof -
  from ms have "set h' = set (minHeap s)" by (metis set_mset_mset)
  moreover from ms have "length h' = length (minHeap s)" by (rule mset_eq_length)
  moreover from ms have "mset (map (keyOf st) h') = mset (map (keyOf st) (minHeap s))" by simp
  then have "distinct (map (keyOf st) h') = distinct (map (keyOf st) (minHeap s))"
    by (rule mset_eq_imp_distinct_iff)
  ultimately show ?thesis using wf by (simp add: shard_wf_def Len_def)
qed

lemma shard_wf_lookup:
  assumes wf: "shard_wf st s" and k: "keyFreqs s key = Some r"
  shows "r \<in> set (minHeap s) \<and> keyOf st r = key \<and> r < length st"
proof -
  from k have "key \<in> dom (keyFreqs s)" by auto
  with wf obtain r' where r': "r' \<in> set (minHeap s)" "keyOf st r' = key"
    by (auto simp: shard_wf_def)
  with wf have "keyFreqs s key = Some r'" by (auto simp: shard_wf_def)
  with k have "r' = r" by simp
  with r' wf show ?thesis by (auto simp: shard_wf_def)
qed

lemma unlocked_mu: "shard.mu s = unlocked \<Longrightarrow> s\<lparr>shard.mu := unlocked\<rparr> = s"
  by (cases s) simp

lemma Lock_unlocked: "Lock unlocked = Inr (unlocked\<lparr>writer := True\<rparr>)"
  by (simp add: Lock_def unlocked_def)

lemma Unlock_locked: "Unlock (unlocked\<lparr>writer := True\<rparr>) = Inr unlocked"
  by (simp add: Unlock_def unlocked_def)

lemma shard_RecordRequest_tracked:
  assumes wf: "shard_wf st s" and mu: "shard.mu s = unlocked"
    and k: "keyFreqs s key = Some r" and ix: "idx_ok st"
  shows "\<exists>st' h'. shard_RecordRequest st s key = Inr (st', s\<lparr>minHeap := h'\<rparr>) \<and>
           mset h' = mset (minHeap s) \<and> length st' = length st \<and> keyOf st' = keyOf st \<and>
           freqOf st' = (freqOf st)(r := wrap64 (freqOf st r + 1)) \<and> idx_ok st'"
proof -
  from shard_wf_lookup [OF wf k] have r: "r < length st" by simp
  define st1 where "st1 = st[r := (st ! r)\<lparr>Frequency := wrap64 (Frequency (st ! r) + 1)\<rparr>]"
  have ix1: "idx_ok st1"
    unfolding idx_ok_def st1_def
  proof
    fix kf
    assume "kf \<in> set (st[r := (st ! r)\<lparr>Frequency := wrap64 (Frequency (st ! r) + 1)\<rparr>])"
    then have "kf = (st ! r)\<lparr>Frequency := wrap64 (Frequency (st ! r) + 1)\<rparr> \<or> kf \<in> set st"
      using set_update_subset_insert by fastforce
    moreover have "st ! r \<in> set st" using r by simp
    ultimately show "- 1 \<le> Index kf" using ix by (auto simp: idx_ok_def)
  qed
  have "st1 ! r \<in> set st1" by (rule nth_mem) (simp add: st1_def r)
  with ix1 have "- 1 \<le> Index (st1 ! r)" by (simp add: idx_ok_def)
  from heap_Fix_ok [OF this, of st1 "minHeap s"] obtain st' h'
    where f: "heap_Fix st1 (minHeap s) (Index (st1 ! r)) = Inr (st', h')"
      and p: "permuted st1 (minHeap s) st' h'"
    by auto
  have k1: "keyOf st1 = keyOf st"
    using r by (auto simp: keyOf_def st1_def fun_eq_iff nth_list_update)
  have f1: "freqOf st1 = (freqOf st)(r := wrap64 (freqOf st r + 1))"
    using r by (auto simp: freqOf_def st1_def fun_eq_iff nth_list_update)
  have l1: "length st1 = length st" by (simp add: st1_def)
  have "shard_RecordRequest st s key = Inr (st', (s\<lparr>minHeap := h'\<rparr>)\<lparr>shard.mu := unlocked\<rparr>)"
    using f k mu unfolding shard_RecordRequest_def
    by (simp add: Lock_unlocked Unlock_locked Let_def flip: st1_def)
  moreover have "(s\<lparr>minHeap := h'\<rparr>)\<lparr>shard.mu := unlocked\<rparr> = s\<lparr>minHeap := h'\<rparr>"
    using mu by (simp add: unlocked_mu)
  ultimately show ?thesis
    using p ix1 k1 f1 l1 by (auto simp: permuted_def same_data_def)
qed

lemma wrap64_incr:
  assumes "- (2 ^ 63) \<le> x" and "x < 2 ^ 63"
  shows "wrap64 (x + 1) = (if x = 2 ^ 63 - 1 then - (2 ^ 63) else x + 1)"
proof (cases "x = 2 ^ 63 - 1")
  case True
  then show ?thesis by (simp add: wrap64_def)
next
  case False
  with assms have "0 \<le> x + 1 + 2 ^ 63" and "x + 1 + 2 ^ 63 < 2 ^ 64" by simp_all
  then have "(x + 1 + 2 ^ 63) mod 2 ^ 64 = x + 1 + 2 ^ 63" by (rule mod_pos_pos_trivial)
  with False show ?thesis by (simp add: wrap64_def)
qed

lemma shard_RecordRequest_new:
  assumes mu: "shard.mu s = unlocked" and k: "keyFreqs s key = None"
  shows "shard_RecordRequest st s key =
     (case processKeyFreq (st @ [\<lparr>Key = key, Frequency = 1, Index = 0\<rparr>])
             (s\<lparr>shard.mu := unlocked\<lparr>writer := True\<rparr>\<rparr>) (length st) of
        Inl e \<Rightarrow> Inl e
      | Inr (st', s1) \<Rightarrow>
          and_then (Unlock (shard.mu s1)) (\<lambda>m'. Inr (st', s1\<lparr>shard.mu := m'\<rparr>)))"
  using mu k unfolding shard_RecordRequest_def
  by (simp add: Lock_unlocked Let_def and_then_def split: sum.splits)

lemma alloc_frame:
  "length (st @ [kf]) = Suc (length st)"
  "\<forall>r<length st. keyOf (st @ [kf]) r = keyOf st r \<and> freqOf (st @ [kf]) r = freqOf st r"
  "keyOf (st @ [kf]) (length st) = Key kf"
  "freqOf (st @ [kf]) (length st) = Frequency kf"
  by (simp_all add: keyOf_def freqOf_def nth_append)

lemma idx_ok_alloc: "idx_ok st \<Longrightarrow> - 1 \<le> Index kf \<Longrightarrow> idx_ok (st @ [kf])"
  by (simp add: idx_ok_def)

lemma shard_RecordRequest_untracked:
  assumes wf: "shard_wf st s" and mu: "shard.mu s = unlocked"
    and k: "keyFreqs s key = None" and n: "0 < shard.topN s"
  shows "\<exists>st' s'. shard_RecordRequest st s key = Inr (st', s') \<and> shard_wf st' s' \<and>
           shard.mu s' = unlocked \<and> shard.topN s' = shard.topN s \<and>
           length st' = Suc (length st) \<and>
           (\<forall>r<length st. keyOf st' r = keyOf st r \<and> freqOf st' r = freqOf st r) \<and>
           keyOf st' (length st) = key \<and> freqOf st' (length st) = 1 \<and>
           set (minHeap s') \<subseteq> insert (length st) (set (minHeap s)) \<and>
           (idx_ok st \<longrightarrow> idx_ok st')"
proof -
  define st0 where "st0 = st @ [\<lparr>Key = key, Frequency = 1, Index = 0\<rparr>]"
  define s0 where "s0 = s\<lparr>shard.mu := unlocked\<lparr>writer := True\<rparr>\<rparr>"
  note a = alloc_frame [of st "\<lparr>Key = key, Frequency = 1, Index = 0\<rparr>", folded st0_def]
  have wf0: "shard_wf st0 s0"
    unfolding s0_def shard_wf_mu
    by (rule shard_wf_ext [OF wf]) (use a in simp_all)
  have "length st < length st0" using a by simp
  moreover have "keyFreqs s0 (keyOf st0 (length st)) = None" using a k by (simp add: s0_def)
  moreover have "0 < shard.topN s0" using n by (simp add: s0_def)
  ultimately obtain st' t'
    where p: "processKeyFreq st0 s0 (length st) = Inr (st', t')" and sd: "same_data st0 st'"
      and wf': "shard_wf st' t'" and sub: "set (minHeap t') \<subseteq> insert (length st) (set (minHeap s0))"
      and tn: "shard.topN t' = shard.topN s0" and tm: "shard.mu t' = shard.mu s0"
      and ix: "idx_ok st0 \<longrightarrow> idx_ok st'"
    using processKeyFreq_wf [OF wf0, of "length st"] by blast
  have r: "shard_RecordRequest st s key = Inr (st', t'\<lparr>shard.mu := unlocked\<rparr>)"
    using p tm unfolding shard_RecordRequest_new [OF mu k]
    by (simp add: Unlock_locked s0_def flip: st0_def)
  have "idx_ok st \<longrightarrow> idx_ok st0" by (simp add: st0_def idx_ok_alloc)
  with r sd wf' sub tn ix a show ?thesis
    by (simp add: same_data_def s0_def)
qed

lemma tracked_frame:
  assumes wf: "shard_wf st s" and f: "\<forall>r<length st. freqOf st' r = freqOf st r"
  shows "(\<lambda>k. map_option (freqOf st') (keyFreqs s k)) = tracked st s"
proof
  fix k
  show "map_option (freqOf st') (keyFreqs s k) = tracked st s k"
  proof (cases "keyFreqs s k")
    case None
    then show ?thesis by (simp add: tracked_def)
  next
    case (Some r)
    with shard_wf_lookup [OF wf Some] f show ?thesis by (simp add: tracked_def)
  qed
qed

lemma shardIndex_shards [simp]: "shardIndex (ht\<lparr>shards := x\<rparr>) key = shardIndex ht key"
  by (simp add: shardIndex_def)

lemma shardIndex_range:
  assumes "0 < numShards ht"
  shows "\<exists>i. shardIndex ht key = Inr (int i) \<and> int i < numShards ht"
proof -
  from smod_range [OF assms, of "Write New32a key"]
  have "0 \<le> uint (Write New32a key) smod numShards ht"
    "uint (Write New32a key) smod numShards ht < numShards ht"
    by simp_all
  then obtain i where "uint (Write New32a key) smod numShards ht = int i"
    using nonneg_int_cases by metis
  with assms \<open>uint (Write New32a key) smod numShards ht < numShards ht\<close> show ?thesis
    by (auto simp: shardIndex_def Let_def)
qed

lemma tracker_ok_update:
  assumes ok: "tracker_ok st ht" and i: "i < length (shards ht)"
    and len: "length st \<le> length st'" and keys: "\<forall>r<length st. keyOf st' r = keyOf st r"
    and ix: "idx_ok st'" and wf': "shard_wf st' s'" and mu': "shard.mu s' = unlocked"
    and tn: "shard.topN s' = HotspotTracker.topN ht"
    and route: "\<forall>r\<in>set (minHeap s'). shardIndex ht (keyOf st' r) = Inr (int i)"
  shows "tracker_ok st' (ht\<lparr>shards := (shards ht)[i := s']\<rparr>)"
proof -
  have "\<forall>j<length (shards ht).
      shard_wf st' ((shards ht)[i := s'] ! j) \<and> shard.mu ((shards ht)[i := s'] ! j) = unlocked \<and>
      shard.topN ((shards ht)[i := s'] ! j) = HotspotTracker.topN ht \<and>
      (\<forall>r\<in>set (minHeap ((shards ht)[i := s'] ! j)). shardIndex ht (keyOf st' r) = Inr (int j))"
  proof (intro allI impI)
    fix j
    assume j: "j < length (shards ht)"
    show "shard_wf st' ((shards ht)[i := s'] ! j) \<and> shard.mu ((shards ht)[i := s'] ! j) = unlocked \<and>
      shard.topN ((shards ht)[i := s'] ! j) = HotspotTracker.topN ht \<and>
      (\<forall>r\<in>set (minHeap ((shards ht)[i := s'] ! j)). shardIndex ht (keyOf st' r) = Inr (int j))"
    proof (cases "j = i")
      case True
      with i wf' mu' tn route show ?thesis by simp
    next
      case False
      from ok j have w: "shard_wf st (shards ht ! j)" and m: "shard.mu (shards ht ! j) = unlocked"
        and t: "shard.topN (shards ht ! j) = HotspotTracker.topN ht"
        and r: "\<forall>r\<in>set (minHeap (shards ht ! j)). shardIndex ht (keyOf st r) = Inr (int j)"
        by (simp_all add: tracker_ok_def)
      from w have "\<forall>r\<in>set (minHeap (shards ht ! j)). r < length st" by (simp add: shard_wf_def)
      with keys r have "\<forall>r\<in>set (minHeap (shards ht ! j)). shardIndex ht (keyOf st' r) = Inr (int j)"
        by simp
      with False shard_wf_ext [OF w len keys] m t show ?thesis by simp
    qed
  qed
  with ok ix show ?thesis by (simp add: tracker_ok_def)
qed

lemma RecordRequest_ok:
  assumes ok: "tracker_ok st ht"
  shows "\<exists>st' ht'. RecordRequest st ht key = Inr (st', ht') \<and> tracker_ok st' ht'"
proof -
  from ok have n: "0 < numShards ht" and l: "int (length (shards ht)) = numShards ht"
    and ix: "idx_ok st"
    by (simp_all add: tracker_ok_def)
  from shardIndex_range [OF n, of key] obtain i
    where si: "shardIndex ht key = Inr (int i)" and il: "i < length (shards ht)"
    using l by auto
  define s where "s = shards ht ! i"
  from ok il have w: "shard_wf st s" and m: "shard.mu s = unlocked"
    and t: "shard.topN s = HotspotTracker.topN ht" and tp: "0 < shard.topN s"
    and r: "\<forall>r\<in>set (minHeap s). shardIndex ht (keyOf st r) = Inr (int i)"
    by (simp_all add: tracker_ok_def s_def)
  have rr: "\<And>st' s'. shard_RecordRequest st s key = Inr (st', s') \<Longrightarrow>
      RecordRequest st ht key = Inr (st', ht\<lparr>shards := (shards ht)[i := s']\<rparr>)"
    using si il by (simp add: RecordRequest_def s_def)
  show ?thesis
  proof (cases "keyFreqs s key")
    case None
    from shard_RecordRequest_untracked [OF w m None tp] ix obtain st' s'
      where q: "shard_RecordRequest st s key = Inr (st', s')" and w': "shard_wf st' s'"
        and m': "shard.mu s' = unlocked" and t': "shard.topN s' = shard.topN s"
        and l': "length st' = Suc (length st)"
        and k': "\<forall>r<length st. keyOf st' r = keyOf st r"
        and kn: "keyOf st' (length st) = key"
        and sub: "set (minHeap s') \<subseteq> insert (length st) (set (minHeap s))"
        and ix': "idx_ok st'"
      by blast
    have "\<forall>r\<in>set (minHeap s'). shardIndex ht (keyOf st' r) = Inr (int i)"
    proof
      fix x
      assume "x \<in> set (minHeap s')"
      with sub have "x = length st \<or> x \<in> set (minHeap s)" by auto
      then show "shardIndex ht (keyOf st' x) = Inr (int i)"
      proof
        assume "x = length st"
        with kn si show ?thesis by simp
      next
        assume x: "x \<in> set (minHeap s)"
        with w have "x < length st" by (simp add: shard_wf_def)
        with k' r x show ?thesis by simp
      qed
    qed
    from tracker_ok_update [OF ok il _ k' ix' w' m' _ this] l' t t' rr [OF q] show ?thesis
      by auto
  next
    case (Some x)
    from shard_RecordRequest_tracked [OF w m Some ix] obtain st' h'
      where q: "shard_RecordRequest st s key = Inr (st', s\<lparr>minHeap := h'\<rparr>)"
        and ms: "mset h' = mset (minHeap s)" and l': "length st' = length st"
        and k': "keyOf st' = keyOf st" and ix': "idx_ok st'"
      by blast
    have k'': "\<forall>r<length st. keyOf st' r = keyOf st r" by (simp add: k')
    have "shard_wf st (s\<lparr>minHeap := h'\<rparr>)" using w ms by (rule shard_wf_perm)
    then have w': "shard_wf st' (s\<lparr>minHeap := h'\<rparr>)"
      by (rule shard_wf_ext) (simp_all add: l' k')
    from ms have "set h' = set (minHeap s)" by (metis set_mset_mset)
    with r have "\<forall>r\<in>set (minHeap (s\<lparr>minHeap := h'\<rparr>)). shardIndex ht (keyOf st' r) = Inr (int i)"
      by (simp add: k')
    from tracker_ok_update [OF ok il _ k'' ix' w' _ _ this] l' t m rr [OF q] show ?thesis
      by auto
  qed
qed

lemma scenario1_state:
  "case start 3 1 scenario1 of
     Inl e \<Rightarrow> False
   | Inr (st, ht) \<Rightarrow> st = scenario1_store \<and> shards ht = [scenario1_shard]"
  by (simp add: eval_defs scenario1_def scenario1_shard_def scenario1_store_def fun_eq_iff)

lemma scenario1_tracker_ok: "tracker_ok scenario1_store scenario1_tracker"
  by (auto simp: tracker_ok_def scenario1_tracker_def shard_wf_def scenario1_store_def
      scenario1_shard_def keyOf_def idx_ok_def Len_def shardIndex_def signed_modulo_int_def)

lemma shard_wf_dom: "shard_wf st t \<Longrightarrow> dom (keyFreqs t) = keyOf st ` set (minHeap t)"
  by (simp add: shard_wf_def)

lemma feed_ok:
  assumes "shard_wf st t" and "0 < shard.topN t" and "\<forall>r\<in>set rs. r < length st"
    and "distinct (map (keyOf st) rs)" and "\<forall>r\<in>set rs. keyFreqs t (keyOf st r) = None"
  shows "\<exists>st' t'. feed st t rs = Inr (st', t') \<and> same_data st st' \<and> shard_wf st' t' \<and>
           set (minHeap t') \<subseteq> set (minHeap t) \<union> set rs \<and> shard.topN t' = shard.topN t \<and>
           shard.mu t' = shard.mu t \<and> (idx_ok st \<longrightarrow> idx_ok st')"
  using assms
proof (induction rs arbitrary: st t)
  case Nil
  then show ?case by simp
next
  case (Cons r rs)
  from Cons.prems have r: "r < length st" "keyFreqs t (keyOf st r) = None" by simp_all
  from processKeyFreq_wf [OF Cons.prems(1) r Cons.prems(2)] obtain st1 t1
    where p: "processKeyFreq st t r = Inr (st1, t1)" and sd: "same_data st st1"
      and wf1: "shard_wf st1 t1" and sub: "set (minHeap t1) \<subseteq> insert r (set (minHeap t))"
      and tn: "shard.topN t1 = shard.topN t" and tm: "shard.mu t1 = shard.mu t"
      and ix: "idx_ok st \<longrightarrow> idx_ok st1"
    by blast
  note k1 = same_data_keyOf [OF sd] and l1 = same_data_length [OF sd]
  have fresh: "\<forall>x\<in>set rs. keyFreqs t1 (keyOf st1 x) = None"
  proof
    fix x
    assume x: "x \<in> set rs"
    from Cons.prems(4) have "keyOf st r \<notin> keyOf st ` set rs" by simp
    with x have ne: "keyOf st x \<noteq> keyOf st r" by (metis imageI)
    from x Cons.prems(5) have "keyFreqs t (keyOf st x) = None" by simp
    then have "keyOf st x \<notin> dom (keyFreqs t)" by (simp add: domIff)
    then have "keyOf st x \<notin> keyOf st ` set (minHeap t)"
      by (simp add: shard_wf_dom [OF Cons.prems(1)])
    with ne sub have "keyOf st x \<notin> keyOf st ` set (minHeap t1)" by auto
    then have "keyOf st1 x \<notin> dom (keyFreqs t1)"
      by (simp add: shard_wf_dom [OF wf1] k1)
    then show "keyFreqs t1 (keyOf st1 x) = None" by (simp add: domIff)
  qed
  have "0 < shard.topN t1" using Cons.prems(2) tn by simp
  moreover have "\<forall>x\<in>set rs. x < length st1" using Cons.prems(3) l1 by simp
  moreover have "distinct (map (keyOf st1) rs)" using Cons.prems(4) k1 by simp
  ultimately obtain st' t'
    where f: "feed st1 t1 rs = Inr (st', t')" and sd': "same_data st1 st'"
      and wf': "shard_wf st' t'" and sub': "set (minHeap t') \<subseteq> set (minHeap t1) \<union> set rs"
      and tn': "shard.topN t' = shard.topN t1" and tm': "shard.mu t' = shard.mu t1"
      and ix': "idx_ok st1 \<longrightarrow> idx_ok st'"
    using Cons.IH [OF wf1 _ _ _ fresh] by blast
  have "feed st t (r # rs) = Inr (st', t')" using p f by simp
  moreover have "set (minHeap t') \<subseteq> set (minHeap t) \<union> set (r # rs)" using sub sub' by auto
  ultimately show ?case
    using same_data_trans [OF sd sd'] wf' tn tn' tm tm' ix ix' by simp
qed

lemma RLock_unlocked: "RLock unlocked = Inr (unlocked\<lparr>readers := Suc 0\<rparr>)"
  by (simp add: RLock_def unlocked_def)

lemma RUnlock_one: "RUnlock (unlocked\<lparr>readers := Suc 0\<rparr>) = Inr unlocked"
  by (simp add: RUnlock_def unlocked_def)

lemma shardsLoop_ok:
  assumes "shard_wf st t" and "0 < shard.topN t"
    and "\<forall>s\<in>set ss. shard.mu s = unlocked \<and> (\<forall>r\<in>set (minHeap s). r < length st)"
    and "distinct (map (keyOf st) (concat (map minHeap ss)))"
    and "\<forall>r\<in>set (concat (map minHeap ss)). keyFreqs t (keyOf st r) = None"
  shows "\<exists>st' t'. shardsLoop st t ss = Inr (st', t', ss) \<and> same_data st st' \<and> shard_wf st' t' \<and>
           set (minHeap t') \<subseteq> set (minHeap t) \<union> set (concat (map minHeap ss)) \<and>
           shard.topN t' = shard.topN t \<and> shard.mu t' = shard.mu t \<and>
           (idx_ok st \<longrightarrow> idx_ok st')"
  using assms
proof (induction ss arbitrary: st t)
  case Nil
  then show ?case by simp
next
  case (Cons s ss)
  from Cons.prems(3) have mu: "shard.mu s = unlocked" and rng: "\<forall>r\<in>set (minHeap s). r < length st"
    by simp_all
  from Cons.prems(4) have d1: "distinct (map (keyOf st) (minHeap s))"
    and d2: "distinct (map (keyOf st) (concat (map minHeap ss)))"
    and dj: "keyOf st ` set (minHeap s) \<inter> keyOf st ` set (concat (map minHeap ss)) = {}"
    by simp_all
  from Cons.prems(5) have fr1: "\<forall>r\<in>set (minHeap s). keyFreqs t (keyOf st r) = None"
    and fr2: "\<forall>r\<in>set (concat (map minHeap ss)). keyFreqs t (keyOf st r) = None"
    by simp_all
  from feed_ok [OF Cons.prems(1,2) rng d1 fr1] obtain st1 t1
    where f: "feed st t (minHeap s) = Inr (st1, t1)" and sd: "same_data st st1"
      and wf1: "shard_wf st1 t1" and sub: "set (minHeap t1) \<subseteq> set (minHeap t) \<union> set (minHeap s)"
      and tn: "shard.topN t1 = shard.topN t" and tm: "shard.mu t1 = shard.mu t"
      and ix: "idx_ok st \<longrightarrow> idx_ok st1"
    by blast
  note k1 = same_data_keyOf [OF sd] and l1 = same_data_length [OF sd]
  have fresh: "\<forall>x\<in>set (concat (map minHeap ss)). keyFreqs t1 (keyOf st1 x) = None"
  proof
    fix x
    assume x: "x \<in> set (concat (map minHeap ss))"
    with dj have "keyOf st x \<notin> keyOf st ` set (minHeap s)" by blast
    moreover from x fr2 have "keyFreqs t (keyOf st x) = None" by blast
    then have "keyOf st x \<notin> dom (keyFreqs t)" by (simp add: domIff)
    then have "keyOf st x \<notin> keyOf st ` set (minHeap t)"
      by (simp add: shard_wf_dom [OF Cons.prems(1)])
    ultimately have "keyOf st x \<notin> keyOf st ` set (minHeap t1)" using sub by blast
    then have "keyOf st1 x \<notin> dom (keyFreqs t1)"
      by (simp add: shard_wf_dom [OF wf1] k1)
    then show "keyFreqs t1 (keyOf st1 x) = None" by (simp add: domIff)
  qed
  have "0 < shard.topN t1" using Cons.prems(2) tn by simp
  moreover have "\<forall>s\<in>set ss. shard.mu s = unlocked \<and> (\<forall>r\<in>set (minHeap s). r < length st1)"
    using Cons.prems(3) l1 by simp
  moreover have "distinct (map (keyOf st1) (concat (map minHeap ss)))" using d2 k1 by simp
  ultimately obtain st' t'
    where q: "shardsLoop st1 t1 ss = Inr (st', t', ss)" and sd': "same_data st1 st'"
      and wf': "shard_wf st' t'"
      and sub': "set (minHeap t') \<subseteq> set (minHeap t1) \<union> set (concat (map minHeap ss))"
      and tn': "shard.topN t' = shard.topN t1" and tm': "shard.mu t' = shard.mu t1"
      and ix': "idx_ok st1 \<longrightarrow> idx_ok st'"
    using Cons.IH [OF wf1 _ _ _ fresh] by blast
  have "shardsLoop st t (s # ss) = Inr (st', t', s # ss)"
    using f q mu by (simp add: RLock_unlocked RUnlock_one unlocked_mu)
  moreover have "set (minHeap t') \<subseteq> set (minHeap t) \<union> set (concat (map minHeap (s # ss)))"
    using sub sub' by auto
  ultimately show ?case
    using same_data_trans [OF sd sd'] wf' tn tn' tm tm' ix ix' by simp
qed

lemma distinct_routed:
  assumes "\<forall>i<length hs. distinct (map f (hs ! i)) \<and> (\<forall>r\<in>set (hs ! i). g (f r) = i + off)"
  shows "distinct (map f (concat hs))"
  using assms
proof (induction hs arbitrary: off)
  case Nil
  then show ?case by simp
next
  case (Cons h hs)
  from Cons.prems have h: "distinct (map f h)" "\<forall>r\<in>set h. g (f r) = off"
    by force+
  have t: "\<forall>i<length hs. distinct (map f (hs ! i)) \<and> (\<forall>r\<in>set (hs ! i). g (f r) = i + Suc off)"
  proof (intro allI impI)
    fix i
    assume "i < length hs"
    then have "Suc i < length (h # hs)" by simp
    with Cons.prems have "distinct (map f ((h # hs) ! Suc i)) \<and>
        (\<forall>r\<in>set ((h # hs) ! Suc i). g (f r) = Suc i + off)"
      by blast
    then show "distinct (map f (hs ! i)) \<and> (\<forall>r\<in>set (hs ! i). g (f r) = i + Suc off)"
      by simp
  qed
  from Cons.IH [OF t] have d: "distinct (map f (concat hs))" .
  have "f ` set h \<inter> f ` set (concat hs) = {}"
  proof (rule ccontr)
    assume "f ` set h \<inter> f ` set (concat hs) \<noteq> {}"
    then obtain r r' where r: "r \<in> set h" "r' \<in> set (concat hs)" "f r = f r'" by auto
    from r(2) obtain xs where "xs \<in> set hs" "r' \<in> set xs" by auto
    then obtain i where i: "i < length hs" "r' \<in> set (hs ! i)"
      by (metis in_set_conv_nth)
    with t have "g (f r') = i + Suc off" by blast
    moreover from h r(1) have "g (f r) = off" by blast
    ultimately show False using r(3) by simp
  qed
  with h(1) d show ?case by simp
qed

lemma tracker_ok_distinct:
  assumes "tracker_ok st ht"
  shows "distinct (map (keyOf st) (concat (map minHeap (shards ht))))"
proof (rule distinct_routed [where off = 0
      and g = "\<lambda>k. case shardIndex ht k of Inl e \<Rightarrow> 0 | Inr i \<Rightarrow> nat i"])
  show "\<forall>i<length (map minHeap (shards ht)).
       distinct (map (keyOf st) (map minHeap (shards ht) ! i)) \<and>
       (\<forall>r\<in>set (map minHeap (shards ht) ! i).
           (case shardIndex ht (keyOf st r) of Inl e \<Rightarrow> 0 | Inr i \<Rightarrow> nat i) = i + 0)"
  proof (intro allI impI)
    fix i
    assume "i < length (map minHeap (shards ht))"
    then have i: "i < length (shards ht)" by simp
    with assms have "shard_wf st (shards ht ! i)"
      "\<forall>r\<in>set (minHeap (shards ht ! i)). shardIndex ht (keyOf st r) = Inr (int i)"
      by (simp_all add: tracker_ok_def)
    with i show "distinct (map (keyOf st) (map minHeap (shards ht) ! i)) \<and>
       (\<forall>r\<in>set (map minHeap (shards ht) ! i).
           (case shardIndex ht (keyOf st r) of Inl e \<Rightarrow> 0 | Inr i \<Rightarrow> nat i) = i + 0)"
      by (simp add: shard_wf_def)
  qed
qed

lemma shard_wf_NewShard: "0 \<le> n \<Longrightarrow> shard_wf st (NewShard n)"
  by (simp add: shard_wf_def NewShard_def Len_def)

lemma aggregateShards_ok:
  assumes ok: "tracker_ok st (ht\<lparr>HotspotTracker.mu := unlocked\<rparr>)"
  shows "\<exists>st' t. aggregateShards st ht = Inr (st', ht, t) \<and> same_data st st' \<and> idx_ok st' \<and>
           shard_wf st' t \<and> shard.mu t = unlocked \<and> shard.topN t = HotspotTracker.topN ht \<and>
           set (minHeap t) \<subseteq> heldRecords ht"
proof -
  let ?t = "NewShard (HotspotTracker.topN ht)"
  from ok have n: "0 < HotspotTracker.topN ht" and ix: "idx_ok st"
    by (simp_all add: tracker_ok_def)
  have wf: "shard_wf st ?t" using n by (simp add: shard_wf_NewShard)
  have tn: "0 < shard.topN ?t" using n by (simp add: NewShard_def)
  have mu: "\<forall>s\<in>set (shards ht). shard.mu s = unlocked \<and> (\<forall>r\<in>set (minHeap s). r < length st)"
  proof
    fix s
    assume "s \<in> set (shards ht)"
    then obtain i where "i < length (shards ht)" "shards ht ! i = s"
      by (auto simp: in_set_conv_nth)
    with ok show "shard.mu s = unlocked \<and> (\<forall>r\<in>set (minHeap s). r < length st)"
      by (auto simp: tracker_ok_def shard_wf_def)
  qed
  have d: "distinct (map (keyOf st) (concat (map minHeap (shards ht))))"
    using tracker_ok_distinct [OF ok] by simp
  have fr: "\<forall>r\<in>set (concat (map minHeap (shards ht))). keyFreqs ?t (keyOf st r) = None"
    by (simp add: NewShard_def)
  from shardsLoop_ok [OF wf tn mu d fr] obtain st' t'
    where q: "shardsLoop st ?t (shards ht) = Inr (st', t', shards ht)"
      and sd: "same_data st st'" and wf': "shard_wf st' t'"
      and sub: "set (minHeap t') \<subseteq> set (minHeap ?t) \<union> set (concat (map minHeap (shards ht)))"
      and tn': "shard.topN t' = shard.topN ?t" and tm': "shard.mu t' = shard.mu ?t"
      and ix': "idx_ok st \<longrightarrow> idx_ok st'"
    by blast
  have "aggregateShards st ht = Inr (st', ht, t')"
    using q by (simp add: aggregateShards_def)
  with sd wf' sub tn' tm' ix ix' show ?thesis
    by (auto simp: NewShard_def heldRecords_def)
qed

lemma AggregateData_ok:
  assumes ok: "tracker_ok st ht" and nc: "\<not> withCache ht"
  shows "\<exists>st' t. AggregateData st ht = Inr (st', ht, Some t) \<and> same_data st st' \<and> idx_ok st' \<and>
           shard_wf st' t \<and> shard.mu t = unlocked \<and> shard.topN t = HotspotTracker.topN ht \<and>
           set (minHeap t) \<subseteq> heldRecords ht"
proof -
  from ok have mu: "HotspotTracker.mu ht = unlocked" by (simp add: tracker_ok_def)
  let ?ht1 = "ht\<lparr>HotspotTracker.mu := unlocked\<lparr>readers := Suc 0\<rparr>\<rparr>"
  have e: "?ht1\<lparr>HotspotTracker.mu := unlocked\<rparr> = ht"
    using mu by (cases ht) simp
  with ok have "tracker_ok st (?ht1\<lparr>HotspotTracker.mu := unlocked\<rparr>)" by simp
  from aggregateShards_ok [OF this] obtain st' t
    where a: "aggregateShards st ?ht1 = Inr (st', ?ht1, t)" and sd: "same_data st st'"
      and ix: "idx_ok st'" and wf: "shard_wf st' t" and tm: "shard.mu t = unlocked"
      and tn: "shard.topN t = HotspotTracker.topN ?ht1" and sub: "set (minHeap t) \<subseteq> heldRecords ?ht1"
    by blast
  have "AggregateData st ht = Inr (st', ?ht1\<lparr>HotspotTracker.mu := unlocked\<rparr>, Some t)"
    using a nc mu by (simp add: AggregateData_def RLock_unlocked RUnlock_one Let_def)
  with e sd ix wf tm tn sub show ?thesis
    by (simp add: heldRecords_def)
qed

lemma tracker_ok_same_data:
  assumes ok: "tracker_ok st ht" and sd: "same_data st st'" and ix: "idx_ok st'"
  shows "tracker_ok st' ht"
proof -
  note k = same_data_keyOf [OF sd] and l = same_data_length [OF sd]
  have "\<forall>i<length (shards ht). shard_wf st' (shards ht ! i)"
  proof (intro allI impI)
    fix i
    assume "i < length (shards ht)"
    with ok have "shard_wf st (shards ht ! i)" by (simp add: tracker_ok_def)
    then show "shard_wf st' (shards ht ! i)"
      by (rule shard_wf_ext) (simp_all add: k l)
  qed
  with ok ix show ?thesis by (simp add: tracker_ok_def k)
qed

lemma trackedFrequency_held:
  assumes ok: "tracker_ok st ht" and r: "r \<in> heldRecords ht"
  shows "trackedFrequency st ht (keyOf st r) = Some (freqOf st r)"
proof -
  from r obtain s where "s \<in> set (shards ht)" "r \<in> set (minHeap s)"
    by (auto simp: heldRecords_def)
  then obtain i where i: "i < length (shards ht)" "r \<in> set (minHeap (shards ht ! i))"
    by (metis in_set_conv_nth)
  with ok have si: "shardIndex ht (keyOf st r) = Inr (int i)"
    and wf: "shard_wf st (shards ht ! i)"
    by (simp_all add: tracker_ok_def)
  from wf i(2) have "keyFreqs (shards ht ! i) (keyOf st r) = Some r"
    by (simp add: shard_wf_def)
  with si i(1) show ?thesis
    by (simp add: trackedFrequency_def tracked_def)
qed

lemma GetHotspots_ok:
  assumes ok: "tracker_ok st ht" and nc: "\<not> withCache ht"
  shows "\<exists>st1 t st' rs. AggregateData st ht = Inr (st1, ht, Some t) \<and> shard_wf st1 t \<and>
           shard.mu t = unlocked \<and> keyOf st1 = keyOf st \<and>
           GetHotspots st ht = Inr (st', ht, map (keyOf st) rs) \<and> same_data st st' \<and>
           idx_ok st' \<and> mset rs = mset (minHeap t) \<and> sorted (map (freqOf st) rs) \<and>
           int (length rs) \<le> HotspotTracker.topN ht \<and> set rs \<subseteq> heldRecords ht"
proof -
  from AggregateData_ok [OF ok nc] obtain st1 t
    where a: "AggregateData st ht = Inr (st1, ht, Some t)" and sd: "same_data st st1"
      and ix: "idx_ok st1" and wf: "shard_wf st1 t" and tm: "shard.mu t = unlocked"
      and tn: "shard.topN t = HotspotTracker.topN ht" and sub: "set (minHeap t) \<subseteq> heldRecords ht"
    by blast
  note k1 = same_data_keyOf [OF sd] and f1 = same_data_freqOf [OF sd]
  from shard_GetHotspots_ok [of st1 t] ix obtain st' rs
    where g: "shard_GetHotspots st1 t = Inr (st', map (keyOf st1) rs)" and sd': "same_data st1 st'"
      and ms: "mset rs = mset (minHeap t)" and so: "sorted (map (freqOf st1) rs)"
      and ix': "idx_ok st'"
    by blast
  have "GetHotspots st ht = Inr (st', ht, map (keyOf st) rs)"
    using a g by (simp add: GetHotspots_def k1)
  moreover from ms have "length rs = length (minHeap t)" by (rule mset_eq_length)
  with wf tn have "int (length rs) \<le> HotspotTracker.topN ht"
    by (simp add: shard_wf_def Len_def)
  moreover from ms have "set rs = set (minHeap t)" by (metis set_mset_mset)
  ultimately show ?thesis
    using a wf tm k1 same_data_trans [OF sd sd'] ix' ms so sub by (auto simp: f1)
qed

lemma IsHotspot_ok:
  assumes a: "AggregateData st ht = Inr (st1, ht, Some t)" and tm: "shard.mu t = unlocked"
    and nc: "\<not> withCache ht"
  shows "IsHotspot st ht key = Inr (st1, ht, keyFreqs t key \<noteq> None)"
  using a tm nc
  by (simp add: IsHotspot_def shard_IsHotspot_def Lock_unlocked Unlock_locked Let_def)

lemma tracker_ok_cache_fields:
  "tracker_ok st (ht\<lparr>cache := c, update := u, stop := p, withCache := w\<rparr>) = tracker_ok st ht"
  "tracker_ok st (ht\<lparr>update := u\<rparr>) = tracker_ok st ht"
  "tracker_ok st (ht\<lparr>stop := p\<rparr>) = tracker_ok st ht"
  by (simp_all add: tracker_ok_def shardIndex_def)

lemma exec_ok:
  assumes ok: "tracker_ok st ht" and e: "exec x (st, ht) = Inr (st', ht')"
  shows "tracker_ok st' ht'"
proof (cases x)
  case (OpRecordRequest key)
  with RecordRequest_ok [OF ok, of key] e show ?thesis by auto
next
  case OpGetHotspots
  show ?thesis
  proof (cases "withCache ht")
    case True
    with e OpGetHotspots show ?thesis
      by (simp add: GetHotspots_def AggregateData_blocks)
  next
    case False
    from GetHotspots_ok [OF ok False] obtain st2 rs
      where "GetHotspots st ht = Inr (st2, ht, map (keyOf st) rs)" "same_data st st2" "idx_ok st2"
      by blast
    with e OpGetHotspots tracker_ok_same_data [OF ok] show ?thesis by auto
  qed
next
  case (OpIsHotspot key)
  show ?thesis
  proof (cases "withCache ht")
    case True
    with e OpIsHotspot show ?thesis
      by (simp add: IsHotspot_def AggregateData_blocks)
  next
    case False
    from AggregateData_ok [OF ok False] obtain st1 t
      where a: "AggregateData st ht = Inr (st1, ht, Some t)" and sd: "same_data st st1"
        and ix: "idx_ok st1" and tm: "shard.mu t = unlocked"
      by blast
    from IsHotspot_ok [OF a tm False, of key] e OpIsHotspot
      tracker_ok_same_data [OF ok sd ix] show ?thesis by auto
  qed
next
  case (OpWithCache interval)
  with e ok show ?thesis
    by (auto simp: WithCache_def Let_def tracker_ok_cache_fields split: if_splits)
next
  case OpTick
  with e ok show ?thesis
    by (auto simp: tick_def tracker_ok_cache_fields)
next
  case OpClose
  with e ok show ?thesis
    by (auto simp: Close_def tracker_ok_cache_fields split: if_splits option.splits chan.splits)
qed

lemma run_ok: "tracker_ok st ht \<Longrightarrow> run xs (st, ht) = Inr (st', ht') \<Longrightarrow> tracker_ok st' ht'"
proof (induction xs arbitrary: st ht)
  case Nil
  then show ?case by simp
next
  case (Cons x xs)
  from Cons.prems(2) obtain st1 ht1 where e: "exec x (st, ht) = Inr (st1, ht1)"
    and r: "run xs (st1, ht1) = Inr (st', ht')"
    by (auto split: sum.splits)
  from Cons.IH [OF exec_ok [OF Cons.prems(1) e] r] show ?case .
qed

lemma NewHotspotTracker_ok:
  assumes "0 < n" and "0 < k" and "NewHotspotTracker n k = Inr ht"
  shows "tracker_ok [] ht"
proof -
  from assms(3) have ht: "ht = \<lparr>shards = replicate (nat k) (NewShard n), numShards = k, topN = n,
      cache = None, mu = unlocked, update = False, stop = None, withCache = False\<rparr>"
    by (auto simp: NewHotspotTracker_def split: if_splits)
  from assms(1,2) show ?thesis
    unfolding ht
    by (auto simp: tracker_ok_def idx_ok_def shard_wf_NewShard)
      (simp_all add: NewShard_def)
qed

lemma saturated_tracker_ok: "tracker_ok saturated_store saturated_tracker"
  by (auto simp: tracker_ok_def idx_ok_def shard_wf_def saturated_store_def
      saturated_tracker_def keyOf_def Len_def shardIndex_def signed_modulo_int_def)

lemma reaches_ok: "reaches n k xs (st, ht) \<Longrightarrow> tracker_ok st ht"
  unfolding reaches_def
  by (auto split: sum.splits dest: run_ok [OF NewHotspotTracker_ok])

lemma scenario1_reaches: "reaches 3 1 scenario1 (scenario1_store, scenario1_tracker)"
  by (simp add: reaches_def eval_defs scenario1_def scenario1_shard_def scenario1_store_def
      scenario1_tracker_def fun_eq_iff)

section \<open>Admission of a new key\<close>

text \<open>
  On a well-formed shard that is not locked, with a positive \<^verbatim>\<open>topN\<close>, \<^verbatim>\<open>RecordRequest\<close> of
  a key that is not tracked returns, and it admits the key against the record at the root of
  the heap: if the heap has fewer than \<^verbatim>\<open>topN\<close> entries, the key is tracked afterwards with
  frequency 1 and the heap has gained the new record; otherwise, if the frequency of the record
  at the root is at most 1, that record has left the heap and the lookup table and the new
  record has entered both with frequency 1; otherwise the shard is unchanged and so are the
  tracked frequencies. The new record is the one allocated at the end of the store.
\<close>

lemma shard_RecordRequest_admission:
  assumes wf: "shard_wf st s" and mu: "shard.mu s = unlocked" and n: "0 < shard.topN s"
    and k: "keyFreqs s key = None"
  shows "\<exists>st' s'. shard_RecordRequest st s key = Inr (st', s') \<and> shard_wf st' s' \<and>
     (if Len (minHeap s) < shard.topN s then
        tracked st' s' = (tracked st s)(key \<mapsto> 1) \<and>
        mset (minHeap s') = add_mset (length st) (mset (minHeap s))
      else if freqOf st (minHeap s ! 0) \<le> 1 then
        tracked st' s' = ((tracked st s)(keyOf st (minHeap s ! 0) := None))(key \<mapsto> 1) \<and>
        add_mset (minHeap s ! 0) (mset (minHeap s')) = add_mset (length st) (mset (minHeap s))
      else s' = s \<and> tracked st' s' = tracked st s)"
proof -
  define st0 where "st0 = st @ [\<lparr>Key = key, Frequency = 1, Index = 0\<rparr>]"
  define s0 where "s0 = s\<lparr>shard.mu := unlocked\<lparr>writer := True\<rparr>\<rparr>"
  note a = alloc_frame [of st "\<lparr>Key = key, Frequency = 1, Index = 0\<rparr>", folded st0_def]
  have s0: "minHeap s0 = minHeap s" "keyFreqs s0 = keyFreqs s" "shard.topN s0 = shard.topN s"
    "shard.mu s0 = unlocked\<lparr>writer := True\<rparr>"
    by (simp_all add: s0_def)
  have kn: "keyOf st0 (length st) = key" and fn: "freqOf st0 (length st) = 1"
    using a by simp_all
  from shard_RecordRequest_untracked [OF wf mu k n] obtain st'' s''
    where ok: "shard_RecordRequest st s key = Inr (st'', s'')" and wf'': "shard_wf st'' s''"
    by blast
  show ?thesis
  proof (cases "Len (minHeap s) < shard.topN s")
    case True
    then have "Len (minHeap s0) < shard.topN s0" by (simp add: s0)
    from processKeyFreq_room [OF this, of st0 "length st", unfolded s0 kn] obtain st' h'
      where p: "processKeyFreq st0 s0 (length st) =
          Inr (st', s0\<lparr>minHeap := h', keyFreqs := (keyFreqs s)(key \<mapsto> length st)\<rparr>)"
        and sd: "same_data st0 st'" and ms: "mset h' = add_mset (length st) (mset (minHeap s))"
      by blast
    let ?s' = "(s0\<lparr>minHeap := h', keyFreqs := (keyFreqs s)(key \<mapsto> length st)\<rparr>)\<lparr>shard.mu := unlocked\<rparr>"
    have r: "shard_RecordRequest st s key = Inr (st', ?s')"
      using p unfolding shard_RecordRequest_new [OF mu k]
      by (simp add: Unlock_locked s0_def flip: st0_def)
    have f: "\<forall>r<length st. freqOf st' r = freqOf st r"
      using a sd by (simp add: same_data_def)
    have "tracked st' ?s' = (\<lambda>k. map_option (freqOf st') (keyFreqs s k))(key \<mapsto> 1)"
      using sd fn by (auto simp: tracked_def fun_eq_iff same_data_def)
    then have "tracked st' ?s' = (tracked st s)(key \<mapsto> 1)"
      by (simp add: tracked_frame [OF wf f])
    with r ok wf'' ms True show ?thesis by simp
  next
    case False
    with n have ne: "minHeap s \<noteq> []" by (auto simp: Len_def)
    from wf ne have r0: "minHeap s ! 0 < length st"
      by (simp add: shard_wf_def)
    from False have full: "\<not> Len (minHeap s0) < shard.topN s0" by (simp add: s0)
    from ne have ne0: "minHeap s0 \<noteq> []" by (simp add: s0)
    have f0: "freqOf st0 (minHeap s0 ! 0) = freqOf st (minHeap s ! 0)"
      and k0: "keyOf st0 (minHeap s ! 0) = keyOf st (minHeap s ! 0)"
      using a r0 by (simp_all add: s0)
    show ?thesis
    proof (cases "freqOf st (minHeap s ! 0) \<le> 1")
      case True
      then have "freqOf st0 (minHeap s0 ! 0) \<le> freqOf st0 (length st)" by (simp add: f0 fn)
      from processKeyFreq_evict [OF full ne0 this, unfolded s0 kn k0] obtain st' h' h1
        where p: "processKeyFreq st0 s0 (length st) =
            Inr (st', s0\<lparr>minHeap := h',
               keyFreqs := ((keyFreqs s)(keyOf st (minHeap s ! 0) := None))(key \<mapsto> length st)\<rparr>)"
          and sd: "same_data st0 st'"
          and ms1: "mset (minHeap s) = add_mset (minHeap s ! 0) (mset h1)"
          and ms2: "mset h' = add_mset (length st) (mset h1)"
        by blast
      let ?s' = "(s0\<lparr>minHeap := h',
               keyFreqs := ((keyFreqs s)(keyOf st (minHeap s ! 0) := None))(key \<mapsto> length st)\<rparr>)\<lparr>shard.mu := unlocked\<rparr>"
      have r: "shard_RecordRequest st s key = Inr (st', ?s')"
        using p unfolding shard_RecordRequest_new [OF mu k]
        by (simp add: Unlock_locked s0_def flip: st0_def)
      have f: "\<forall>r<length st. freqOf st' r = freqOf st r"
        using a sd by (simp add: same_data_def)
      have "tracked st' ?s' =
          ((\<lambda>k. map_option (freqOf st') (keyFreqs s k))(keyOf st (minHeap s ! 0) := None))(key \<mapsto> 1)"
        using sd fn by (auto simp: tracked_def fun_eq_iff same_data_def)
      then have "tracked st' ?s' = ((tracked st s)(keyOf st (minHeap s ! 0) := None))(key \<mapsto> 1)"
        by (simp add: tracked_frame [OF wf f])
      moreover have "add_mset (minHeap s ! 0) (mset h') = add_mset (length st) (mset (minHeap s))"
        using ms1 ms2 by simp
      ultimately show ?thesis using r ok wf'' False True by simp
    next
      case nle: False
      then have "\<not> freqOf st0 (minHeap s0 ! 0) \<le> freqOf st0 (length st)" by (simp add: f0 fn)
      from processKeyFreq_drop [OF full ne0 this]
      have r: "shard_RecordRequest st s key = Inr (st0, s0\<lparr>shard.mu := unlocked\<rparr>)"
        unfolding shard_RecordRequest_new [OF mu k]
        by (simp add: Unlock_locked s0_def flip: st0_def)
      have e: "s0\<lparr>shard.mu := unlocked\<rparr> = s"
        using mu by (simp add: s0_def unlocked_mu)
      have "tracked st0 s = tracked st s"
        using tracked_frame [OF wf, of st0] a by (simp add: tracked_def)
      with r e ok wf'' False nle show ?thesis by simp
    qed
  qed
qed

text \<open>
  Scenario 2: after Scenario 1 the shard is full and the frequency at its root is 2, so a
  further request for e leaves the shard as it was, with e not tracked.
\<close>

lemma scenario2_dropped:
  "\<exists>st'. shard_RecordRequest scenario1_store scenario1_shard ''e'' = Inr (st', scenario1_shard) \<and>
         tracked st' scenario1_shard = tracked scenario1_store scenario1_shard"
proof -
  have i: "shard_wf scenario1_store scenario1_shard"
    by (auto simp: shard_wf_def scenario1_store_def scenario1_shard_def keyOf_def
        freqOf_def Len_def)
  have m: "shard.mu scenario1_shard = unlocked" "0 < shard.topN scenario1_shard"
    "keyFreqs scenario1_shard ''e'' = None"
    by (simp_all add: scenario1_shard_def)
  have c: "\<not> Len (minHeap scenario1_shard) < shard.topN scenario1_shard"
    "\<not> freqOf scenario1_store (minHeap scenario1_shard ! 0) \<le> 1"
    by (simp_all add: scenario1_shard_def scenario1_store_def Len_def freqOf_def)
  from shard_RecordRequest_admission [OF i m] c show ?thesis
    by auto
qed

section \<open>The claims\<close>

text \<open>
  C1, at the failing input. With \<^verbatim>\<open>topN = 3\<close> and one shard, the requests a, b, c, a, a
  leave the heap b, a, c. A tracker-level \<^verbatim>\<open>GetHotspots\<close> then pushes and pops the shard's own
  records through the aggregate heap and its copy, which leaves every \<^verbatim>\<open>Index\<close> at \<open>-1\<close>; the
  next request for b increments b and calls \<^verbatim>\<open>heap.Fix\<close> at \<open>-1\<close>, which moves nothing. The
  root is then b with frequency 2 although c, still tracked, has frequency 1: the root is not
  the minimum.
\<close>

theorem root_not_minimum_after_read:
  "case start 3 1 [OpRecordRequest ''a'', OpRecordRequest ''b'', OpRecordRequest ''c'',
                   OpRecordRequest ''a'', OpRecordRequest ''a'', OpGetHotspots,
                   OpRecordRequest ''b''] of
     Inl e \<Rightarrow> False
   | Inr (st, ht) \<Rightarrow>
       minHeap (shards ht ! 0) = [1, 0, 2] \<and> map Key st = [''a'', ''b'', ''c''] \<and>
       keyFreqs (shards ht ! 0) ''c'' = Some 2 \<and>
       Frequency (st ! (minHeap (shards ht ! 0) ! 0)) = 2 \<and> Frequency (st ! 2) = 1"
  by (simp add: eval_defs)

text \<open>
  C2, at the failing input. With \<^verbatim>\<open>topN = 3\<close> and one shard, the requests a, b, c, a, a, a
  tracker-level \<^verbatim>\<open>GetHotspots\<close> and a request for b leave a full heap b, a, c in which b, at
  the root, has frequency 2 and c has frequency 1 (see C1). The minimum frequency is then 1,
  so that the admission algorithm of the spec evicts and inserts; \<^verbatim>\<open>processKeyFreq\<close> compares
  with the record at the root, and the request for x is dropped: the tracker is as before, x
  is not tracked and c still is.
\<close>

theorem candidate_dropped_at_minimum_one:
  "case start 3 1 [OpRecordRequest ''a'', OpRecordRequest ''b'', OpRecordRequest ''c'',
                   OpRecordRequest ''a'', OpRecordRequest ''a'', OpGetHotspots,
                   OpRecordRequest ''b''] of
     Inl e \<Rightarrow> False
   | Inr (st, ht) \<Rightarrow>
       Len (minHeap (shards ht ! 0)) = shard.topN (shards ht ! 0) \<and>
       map (tracked st (shards ht ! 0)) [''a'', ''b'', ''c'', ''x''] =
         [Some 3, Some 2, Some 1, None] \<and>
       (case RecordRequest st ht ''x'' of
          Inl e \<Rightarrow> False
        | Inr (st', ht') \<Rightarrow>
            ht' = ht \<and>
            map (tracked st' (shards ht' ! 0)) [''a'', ''b'', ''c'', ''x''] =
              [Some 3, Some 2, Some 1, None])"
  by (simp add: eval_defs tracked_def freqOf_def)

text \<open>
  C3, at the failing input. After one request for a, the record of a is at position 0 of its
  shard's heap and its \<^verbatim>\<open>Index\<close> is 0. A tracker-level \<^verbatim>\<open>GetHotspots\<close> returns with the same
  record still tracked by the shard, but with \<^verbatim>\<open>Index\<close> \<open>-1\<close>: the read has changed a field of
  a tracked record.
\<close>

theorem read_changes_Index:
  "case start 3 1 [OpRecordRequest ''a''] of
     Inl e \<Rightarrow> False
   | Inr (st, ht) \<Rightarrow>
      (case GetHotspots st ht of
         Inl e \<Rightarrow> False
       | Inr (st', ht', hotspots) \<Rightarrow>
           keyFreqs (shards ht ! 0) ''a'' = Some 0 \<and> keyFreqs (shards ht' ! 0) ''a'' = Some 0 \<and>
           Index (st ! 0) = 0 \<and> Index (st' ! 0) = - 1)"
  by (simp add: eval_defs)

text \<open>
  C4, as stated, fails: \<^verbatim>\<open>NewHotspotTracker(0, 1)\<close> returns a tracker.
\<close>

theorem NewHotspotTracker_zero_topN:
  "NewHotspotTracker 0 1 =
     Inr \<lparr>shards = [NewShard 0], numShards = 1, topN = 0, cache = None, mu = unlocked,
          update = False, stop = None, withCache = False\<rparr>"
  by (simp add: NewHotspotTracker_def)

text \<open>
  C4, amended. Construction checks neither argument. It fails, with the panic of \<^verbatim>\<open>make\<close>,
  when the number of shards is negative; whether it fails never depends on \<^verbatim>\<open>topN\<close>; with
  no shard at all it returns a tracker. A tracker that it returns for no shard fails its every
  \<^verbatim>\<open>RecordRequest\<close> with a division by zero, and a tracker that it returns for a positive
  number of shards and a \<^verbatim>\<open>topN\<close> that is not positive fails its every \<^verbatim>\<open>RecordRequest\<close>
  with an index out of range: neither stores nothing silently.
\<close>

theorem NewHotspotTracker_unchecked:
  "(k < 0 \<longrightarrow> NewHotspotTracker n k = Inl MakesliceLenOutOfRange) \<and>
   (isl (NewHotspotTracker n k) \<longleftrightarrow> isl (NewHotspotTracker n' k)) \<and>
   (k = 0 \<longrightarrow> \<not> isl (NewHotspotTracker n k)) \<and>
   (NewHotspotTracker n k = Inr ht \<and> k = 0 \<longrightarrow> RecordRequest st ht key = Inl DivideByZero) \<and>
   (NewHotspotTracker n k = Inr ht \<and> 0 < k \<and> n \<le> 0 \<longrightarrow>
      RecordRequest st ht key = Inl IndexOutOfRange)"
proof (intro conjI impI)
  assume "k < 0"
  then show "NewHotspotTracker n k = Inl MakesliceLenOutOfRange"
    by (simp add: NewHotspotTracker_def)
next
  show "isl (NewHotspotTracker n k) \<longleftrightarrow> isl (NewHotspotTracker n' k)"
    by (simp add: NewHotspotTracker_def)
next
  assume "k = 0"
  then show "\<not> isl (NewHotspotTracker n k)"
    by (simp add: NewHotspotTracker_def)
next
  assume "NewHotspotTracker n k = Inr ht \<and> k = 0"
  then show "RecordRequest st ht key = Inl DivideByZero"
    by (auto simp: NewHotspotTracker_def RecordRequest_def shardIndex_def)
next
  assume a: "NewHotspotTracker n k = Inr ht \<and> 0 < k \<and> n \<le> 0"
  then have ht: "ht = \<lparr>shards = replicate (nat k) (NewShard n), numShards = k, topN = n,
      cache = None, mu = unlocked, update = False, stop = None, withCache = False\<rparr>"
    by (auto simp: NewHotspotTracker_def split: if_splits)
  from a smod_range [of k "Write New32a key"]
  have r: "0 \<le> uint (Write New32a key) smod k" "uint (Write New32a key) smod k < k"
    by auto
  have s: "shard_RecordRequest st (NewShard n) key = Inl IndexOutOfRange"
    using a by (simp add: shard_RecordRequest_def NewShard_def Lock_def unlocked_def Let_def
        processKeyFreq_def Len_def)
  show "RecordRequest st ht key = Inl IndexOutOfRange"
    using a r s by (simp add: RecordRequest_def shardIndex_def ht Let_def)
qed

theorem NewHotspotTracker_unchecked_witness:
  "NewHotspotTracker 3 (- 1) = Inl MakesliceLenOutOfRange \<and>
   \<not> isl (NewHotspotTracker 3 0) \<and>
   RecordRequest [] \<lparr>shards = [], numShards = 0, topN = 3, cache = None,
      mu = unlocked, update = False, stop = None, withCache = False\<rparr> ''a''
     = Inl DivideByZero \<and>
   \<not> isl (NewHotspotTracker 0 1) \<and>
   RecordRequest [] \<lparr>shards = [NewShard 0], numShards = 1, topN = 0, cache = None,
      mu = unlocked, update = False, stop = None, withCache = False\<rparr> ''a''
     = Inl IndexOutOfRange"
  using NewHotspotTracker_unchecked [of "- 1" 3 3 "\<lparr>shards = [], numShards = 0, topN = 3,
      cache = None, mu = unlocked, update = False, stop = None, withCache = False\<rparr>" "[]" "''a''"]
    NewHotspotTracker_unchecked [of 0 3 3 "\<lparr>shards = [], numShards = 0, topN = 3,
      cache = None, mu = unlocked, update = False, stop = None, withCache = False\<rparr>" "[]" "''a''"]
    NewHotspotTracker_unchecked [of 1 0 3 "\<lparr>shards = [NewShard 0], numShards = 1, topN = 0,
      cache = None, mu = unlocked, update = False, stop = None, withCache = False\<rparr>" "[]" "''a''"]
  by (simp add: NewHotspotTracker_def)

text \<open>
  C5. In every reachable tracker state without the cache, \<^verbatim>\<open>GetHotspots\<close> returns, leaves
  the tracker as it is, and the sequence of keys it returns is at most \<^verbatim>\<open>topN\<close> long and
  ascending in the frequencies with which the tracker tracks these keys. In a reachable state
  with the cache enabled it returns no sequence at all (see C7).
\<close>

theorem GetHotspots_bounded_ascending:
  assumes "reaches n k xs (st, ht)"
  shows "if withCache ht then GetHotspots st ht = Inl BlocksForever
         else (\<exists>st' hotspots fs. GetHotspots st ht = Inr (st', ht, hotspots) \<and>
                 int (length hotspots) \<le> HotspotTracker.topN ht \<and>
                 map (trackedFrequency st ht) hotspots = map Some fs \<and> sorted fs)"
proof (cases "withCache ht")
  case True
  then show ?thesis by (simp add: GetHotspots_def AggregateData_blocks)
next
  case False
  from reaches_ok [OF assms] have ok: "tracker_ok st ht" .
  from GetHotspots_ok [OF ok False] obtain st' rs
    where g: "GetHotspots st ht = Inr (st', ht, map (keyOf st) rs)"
      and so: "sorted (map (freqOf st) rs)" and len: "int (length rs) \<le> HotspotTracker.topN ht"
      and sub: "set rs \<subseteq> heldRecords ht"
    by blast
  have "map (trackedFrequency st ht) (map (keyOf st) rs) = map Some (map (freqOf st) rs)"
    using sub trackedFrequency_held [OF ok] by (auto simp: subset_iff)
  with so have "\<exists>fs. map (trackedFrequency st ht) (map (keyOf st) rs) = map Some fs \<and> sorted fs"
    by blast
  with g len False show ?thesis by auto
qed

theorem GetHotspots_bounded_ascending_witness:
  "reaches 3 1 scenario1 (scenario1_store, scenario1_tracker) \<and>
   (\<exists>st' hotspots fs.
      GetHotspots scenario1_store scenario1_tracker = Inr (st', scenario1_tracker, hotspots) \<and>
      int (length hotspots) \<le> 3 \<and>
      map (trackedFrequency scenario1_store scenario1_tracker) hotspots = map Some fs \<and> sorted fs)"
  using GetHotspots_bounded_ascending [OF scenario1_reaches] scenario1_reaches
  by (simp add: scenario1_tracker_def)

text \<open>
  C6. In every reachable tracker state without the cache, and for every key, \<^verbatim>\<open>IsHotspot\<close>
  and \<^verbatim>\<open>GetHotspots\<close>, both called in that same state, return, and \<^verbatim>\<open>IsHotspot\<close> answers
  true exactly when the key is in the sequence of \<^verbatim>\<open>GetHotspots\<close>. With the cache enabled
  neither returns (see C7).
\<close>

theorem IsHotspot_iff_member:
  assumes "reaches n k xs (st, ht)"
  shows "if withCache ht
         then GetHotspots st ht = Inl BlocksForever \<and> IsHotspot st ht key = Inl BlocksForever
         else (\<exists>st1 hotspots st2 b. GetHotspots st ht = Inr (st1, ht, hotspots) \<and>
                 IsHotspot st ht key = Inr (st2, ht, b) \<and> (b \<longleftrightarrow> key \<in> set hotspots))"
proof (cases "withCache ht")
  case True
  then show ?thesis by (simp add: GetHotspots_def IsHotspot_def AggregateData_blocks)
next
  case False
  from reaches_ok [OF assms] have ok: "tracker_ok st ht" .
  from GetHotspots_ok [OF ok False] obtain st1 t st' rs
    where a: "AggregateData st ht = Inr (st1, ht, Some t)" and wf: "shard_wf st1 t"
      and tm: "shard.mu t = unlocked" and k1: "keyOf st1 = keyOf st"
      and g: "GetHotspots st ht = Inr (st', ht, map (keyOf st) rs)"
      and ms: "mset rs = mset (minHeap t)"
    by blast
  from ms have s: "set rs = set (minHeap t)" by (metis set_mset_mset)
  have "keyFreqs t key \<noteq> None \<longleftrightarrow> key \<in> dom (keyFreqs t)" by (simp add: domIff)
  also have "\<dots> \<longleftrightarrow> key \<in> set (map (keyOf st) rs)"
    by (simp add: shard_wf_dom [OF wf] k1 s)
  finally have "keyFreqs t key \<noteq> None \<longleftrightarrow> key \<in> set (map (keyOf st) rs)" .
  with g IsHotspot_ok [OF a tm False, of key] False show ?thesis by auto
qed

theorem IsHotspot_iff_member_witness:
  "reaches 3 1 scenario1 (scenario1_store, scenario1_tracker) \<and>
   (\<exists>st1 hotspots st2 b.
      GetHotspots scenario1_store scenario1_tracker = Inr (st1, scenario1_tracker, hotspots) \<and>
      IsHotspot scenario1_store scenario1_tracker ''f'' = Inr (st2, scenario1_tracker, b) \<and>
      (b \<longleftrightarrow> ''f'' \<in> set hotspots))"
  using IsHotspot_iff_member [OF scenario1_reaches, of "''f''"] scenario1_reaches
  by (simp add: scenario1_tracker_def)

text \<open>
  C7, at the failing input (Scenario 4). On a tracker with the cache enabled, the first read
  after a request does not return: \<^verbatim>\<open>AggregateData\<close> holds the read lock of \<^verbatim>\<open>ht.mu\<close> when it
  asks for the write lock of the same mutex.
\<close>

theorem cached_read_blocks:
  "(case NewHotspotTracker 3 1 of
      Inl e \<Rightarrow> Inl e
    | Inr ht \<Rightarrow>
       (case WithCache ht 1 of
          Inl e \<Rightarrow> Inl e
        | Inr ht1 \<Rightarrow>
           (case RecordRequest [] ht1 ''a'' of
              Inl e \<Rightarrow> Inl e
            | Inr (st, ht2) \<Rightarrow> GetHotspots st ht2))) = Inl BlocksForever"
  by (simp add: eval_defs)

text \<open>
  C8 (Scenario 1). With \<^verbatim>\<open>topN = 3\<close> and one shard, the requests a, b, c, a, a, b, d, d, d,
  d, e, f, e leave exactly a, b and d tracked, with frequencies 3, 2 and 4, and
  \<^verbatim>\<open>IsHotspot("f")\<close> answers false.
\<close>

theorem scenario1_tracked:
  "case start 3 1 scenario1 of
     Inl e \<Rightarrow> False
   | Inr (st, ht) \<Rightarrow>
       length (shards ht) = 1 \<and>
       dom (keyFreqs (shards ht ! 0)) = {''a'', ''b'', ''d''} \<and>
       map (\<lambda>k. map_option (\<lambda>r. Frequency (st ! r)) (keyFreqs (shards ht ! 0) k))
         [''a'', ''b'', ''d''] = [Some 3, Some 2, Some 4] \<and>
       (case IsHotspot st ht ''f'' of Inl e \<Rightarrow> False | Inr (st', ht', b) \<Rightarrow> \<not> b)"
  by (auto simp: eval_defs scenario1_def)

text \<open>
  C9, as stated, fails at the largest \<^verbatim>\<open>int\<close>. In a tracker with one shard that tracks a
  with the frequency \<open>2^63 - 1\<close>, as after that many requests for a, \<^verbatim>\<open>RecordRequest\<close> of a
  leaves a tracked with the frequency \<open>- 2^63\<close>: \<^verbatim>\<open>kf.Frequency++\<close> has wrapped around.
\<close>

theorem RecordRequest_at_largest_int:
  "keyFreqs (shards saturated_tracker ! 0) ''a'' = Some 0 \<and>
   tracked saturated_store (shards saturated_tracker ! 0) ''a'' = Some (2 ^ 63 - 1) \<and>
   (case RecordRequest saturated_store saturated_tracker ''a'' of
      Inl e \<Rightarrow> False
    | Inr (st', ht') \<Rightarrow> tracked st' (shards ht' ! 0) ''a'' = Some (- (2 ^ 63)))"
  by (simp add: eval_defs tracked_def freqOf_def saturated_store_def saturated_tracker_def)

text \<open>
  C9, amended. On a tracker state that satisfies the invariant of the reachable states,
  \<^verbatim>\<open>RecordRequest\<close> of a key that its shard tracks, with a frequency that is a Go \<^verbatim>\<open>int\<close>,
  returns; afterwards every shard has the lookup table it had and the same records in its
  heap, so nothing has been inserted or evicted, every other tracked key of every shard has
  the frequency it had, and the frequency of the key has grown by exactly one, unless it was
  the largest \<^verbatim>\<open>int\<close>, \<open>2^63 - 1\<close>: then it is the smallest, \<open>- 2^63\<close>.
\<close>

theorem RecordRequest_tracked:
  assumes ok: "tracker_ok st ht" and si: "shardIndex ht key = Inr i"
    and k: "keyFreqs (shards ht ! nat i) key = Some r"
    and lo: "- (2 ^ 63) \<le> freqOf st r" and hi: "freqOf st r < 2 ^ 63"
  shows "\<exists>st' ht'. RecordRequest st ht key = Inr (st', ht') \<and>
     length (shards ht') = length (shards ht) \<and>
     (\<forall>j<length (shards ht).
         keyFreqs (shards ht' ! j) = keyFreqs (shards ht ! j) \<and>
         mset (minHeap (shards ht' ! j)) = mset (minHeap (shards ht ! j)) \<and>
         tracked st' (shards ht' ! j) =
           (if j = nat i then (tracked st (shards ht ! j))(key \<mapsto> if freqOf st r = 2 ^ 63 - 1 then - (2 ^ 63) else freqOf st r + 1)
            else tracked st (shards ht ! j)))"
proof -
  from ok have n: "0 < numShards ht" and l: "int (length (shards ht)) = numShards ht"
    and ix: "idx_ok st"
    by (simp_all add: tracker_ok_def)
  from shardIndex_range [OF n, of key] si l have il: "nat i < length (shards ht)" and i0: "0 \<le> i"
    by auto
  define s where "s = shards ht ! nat i"
  from ok il have w: "shard_wf st s" and m: "shard.mu s = unlocked"
    and rt: "\<forall>x\<in>set (minHeap s). shardIndex ht (keyOf st x) = Inr (int (nat i))"
    by (simp_all add: tracker_ok_def s_def)
  from k have ks: "keyFreqs s key = Some r" by (simp add: s_def)
  from shard_wf_lookup [OF w ks] have r: "r \<in> set (minHeap s)" "keyOf st r = key" by simp_all
  from shard_RecordRequest_tracked [OF w m ks ix] obtain st' h'
    where q: "shard_RecordRequest st s key = Inr (st', s\<lparr>minHeap := h'\<rparr>)"
      and ms: "mset h' = mset (minHeap s)"
      and f0: "freqOf st' = (freqOf st)(r := wrap64 (freqOf st r + 1))"
    by blast
  have f': "freqOf st' =
      (freqOf st)(r := if freqOf st r = 2 ^ 63 - 1 then - (2 ^ 63) else freqOf st r + 1)"
    unfolding f0 wrap64_incr [OF lo hi] ..
  let ?ht' = "ht\<lparr>shards := (shards ht)[nat i := s\<lparr>minHeap := h'\<rparr>]\<rparr>"
  have rr: "RecordRequest st ht key = Inr (st', ?ht')"
    using si il i0 q by (simp add: RecordRequest_def s_def)
  have "\<forall>j<length (shards ht).
         keyFreqs (shards ?ht' ! j) = keyFreqs (shards ht ! j) \<and>
         mset (minHeap (shards ?ht' ! j)) = mset (minHeap (shards ht ! j)) \<and>
         tracked st' (shards ?ht' ! j) =
           (if j = nat i then (tracked st (shards ht ! j))(key \<mapsto> if freqOf st r = 2 ^ 63 - 1 then - (2 ^ 63) else freqOf st r + 1)
            else tracked st (shards ht ! j))"
  proof (intro allI impI)
    fix j
    assume j: "j < length (shards ht)"
    show "keyFreqs (shards ?ht' ! j) = keyFreqs (shards ht ! j) \<and>
         mset (minHeap (shards ?ht' ! j)) = mset (minHeap (shards ht ! j)) \<and>
         tracked st' (shards ?ht' ! j) =
           (if j = nat i then (tracked st (shards ht ! j))(key \<mapsto> if freqOf st r = 2 ^ 63 - 1 then - (2 ^ 63) else freqOf st r + 1)
            else tracked st (shards ht ! j))"
    proof (cases "j = nat i")
      case True
      have "tracked st' (s\<lparr>minHeap := h'\<rparr>) = (tracked st s)(key \<mapsto> if freqOf st r = 2 ^ 63 - 1 then - (2 ^ 63) else freqOf st r + 1)"
      proof
        fix k'
        show "tracked st' (s\<lparr>minHeap := h'\<rparr>) k' = ((tracked st s)(key \<mapsto> if freqOf st r = 2 ^ 63 - 1 then - (2 ^ 63) else freqOf st r + 1)) k'"
        proof (cases "keyFreqs s k'")
          case None
          with ks have "k' \<noteq> key" by auto
          with None show ?thesis by (simp add: tracked_def)
        next
          case (Some x)
          from shard_wf_lookup [OF w Some] have kx: "keyOf st x = k'" by simp
          show ?thesis
          proof (cases "k' = key")
            case True
            with Some ks have "x = r" by simp
            with True Some show ?thesis by (simp add: tracked_def f')
          next
            case False
            with kx r(2) have "x \<noteq> r" by blast
            with False Some show ?thesis by (simp add: tracked_def f')
          qed
        qed
      qed
      with True il ms show ?thesis by (simp add: s_def)
    next
      case False
      define t where "t = shards ht ! j"
      from ok j have wt: "shard_wf st t"
        and rj: "\<forall>x\<in>set (minHeap t). shardIndex ht (keyOf st x) = Inr (int j)"
        by (simp_all add: tracker_ok_def t_def)
      have "tracked st' t = tracked st t"
      proof
        fix k'
        show "tracked st' t k' = tracked st t k'"
        proof (cases "keyFreqs t k'")
          case None
          then show ?thesis by (simp add: tracked_def)
        next
          case (Some x)
          from shard_wf_lookup [OF wt Some] have "x \<in> set (minHeap t)" by simp
          with rj have "shardIndex ht (keyOf st x) = Inr (int j)" by blast
          moreover from r(2) si have "shardIndex ht (keyOf st r) = Inr i" by simp
          ultimately have "x \<noteq> r" using False by auto
          with Some show ?thesis by (simp add: tracked_def f')
        qed
      qed
      with False j show ?thesis by (simp add: t_def)
    qed
  qed
  with rr show ?thesis by simp
qed

theorem RecordRequest_tracked_witness:
  "tracker_ok scenario1_store scenario1_tracker \<and>
   keyFreqs (shards scenario1_tracker ! 0) ''a'' = Some 0 \<and>
   (\<exists>st' ht'. RecordRequest scenario1_store scenario1_tracker ''a'' = Inr (st', ht') \<and>
      keyFreqs (shards ht' ! 0) = keyFreqs scenario1_shard \<and>
      tracked st' (shards ht' ! 0) = (tracked scenario1_store scenario1_shard)(''a'' \<mapsto> 4))"
proof -
  have si: "shardIndex scenario1_tracker ''a'' = Inr 0"
    by (simp add: shardIndex_def scenario1_tracker_def signed_modulo_int_def)
  have k: "keyFreqs (shards scenario1_tracker ! nat 0) ''a'' = Some 0"
    by (simp add: scenario1_tracker_def scenario1_shard_def)
  have f: "freqOf scenario1_store 0 = 3"
    by (simp add: freqOf_def scenario1_store_def)
  have lo: "- (2 ^ 63) \<le> freqOf scenario1_store 0" and hi: "freqOf scenario1_store 0 < 2 ^ 63"
    by (simp_all add: f)
  from RecordRequest_tracked [OF scenario1_tracker_ok si k lo hi] scenario1_tracker_ok k f
  show ?thesis
    by (auto simp: scenario1_tracker_def)
qed

text \<open>
  C10. On a tracker that \<^verbatim>\<open>NewHotspotTracker\<close> has built, after any sequence of operations
  among which there is no \<^verbatim>\<open>WithCache\<close>, \<^verbatim>\<open>Close\<close> returns normally and leaves the whole
  tracker as it was.
\<close>

theorem Close_without_cache:
  assumes "NewHotspotTracker n k = Inr ht0" and "run xs ([], ht0) = Inr (st, ht)"
    and "\<forall>i. OpWithCache i \<notin> set xs"
  shows "Close ht = Inr ht"
proof -
  from assms(1) have "\<not> withCache ht0"
    by (auto simp: NewHotspotTracker_def split: if_splits)
  with run_withCache [OF assms(2,3)] show ?thesis
    by (simp add: Close_noop)
qed

theorem Close_without_cache_witness:
  "case start 3 1 [OpRecordRequest ''a'', OpGetHotspots] of
     Inl e \<Rightarrow> False
   | Inr (st, ht) \<Rightarrow> Close ht = Inr ht"
proof -
  have n: "NewHotspotTracker 3 1 = Inr \<lparr>shards = [NewShard 3], numShards = 1, topN = 3,
      cache = None, mu = unlocked, update = False, stop = None, withCache = False\<rparr>"
    by (simp add: NewHotspotTracker_def)
  obtain st ht where r: "run [OpRecordRequest ''a'', OpGetHotspots]
      ([], \<lparr>shards = [NewShard 3], numShards = 1, topN = 3,
      cache = None, mu = unlocked, update = False, stop = None, withCache = False\<rparr>) = Inr (st, ht)"
    by (simp add: eval_defs)
  have "\<forall>i. OpWithCache i \<notin> set [OpRecordRequest ''a'', OpGetHotspots]"
    by simp
  from Close_without_cache [OF n r this] show ?thesis
    unfolding start_def n sum.case r by simp
qed

end
